theory Spec2Isabelle
  imports Complex_Main
begin

section \<open>Tabular Q-learning for CartPole: discretizer and value table\<close>

text \<open>
  The development embeds the two source files of the agent:
  \<^item> \<^verbatim>\<open>cartpole.py\<close>: \<^verbatim>\<open>find_nearest\<close> (nearest representative value by binary search)
    and \<^verbatim>\<open>discretize_observation_space\<close> (construction of the factor domains);
  \<^item> \<^verbatim>\<open>qtable.py\<close>: the class \<^verbatim>\<open>QTable\<close> with its constructor, the lookups
    \<^verbatim>\<open>_get_state_values\<close>, \<^verbatim>\<open>_get_qvalue\<close>, \<^verbatim>\<open>_get_max_action\<close>, the writer
    \<^verbatim>\<open>_update_qvalue\<close>, the update \<^verbatim>\<open>process_step\<close> and \<^verbatim>\<open>update_exploration_rate\<close>.

  Numbers are modelled as \<^typ>\<open>real\<close>: Python integers and finite floats embed into the reals,
  and rounding, infinities and NaN are outside the model. Python exceptions are values of the
  type \<open>error\<close>; a function that can raise returns \<open>error + 'a\<close> with \<open>Inl\<close> for the exception.
  Method names lose their leading underscore, which Isabelle identifiers cannot carry.
\<close>

datatype error = IndexError | KeyError | ValueError | TypeError | ZeroDivisionError

subsection \<open>Nearest-value lookup (\<open>find_nearest\<close>)\<close>

text \<open>
  The nested helper \<^verbatim>\<open>get_closer(a, b)\<close> closes over \<^verbatim>\<open>target\<close>, which becomes its first
  argument here. It returns \<open>a\<close> when the two distances are equal.
\<close>

definition get_closer :: "real \<Rightarrow> real \<Rightarrow> real \<Rightarrow> real" where
  "get_closer target a b =
     (let diff_a = \<bar>target - a\<bar>; diff_b = \<bar>target - b\<bar>
      in if diff_a \<le> diff_b then a else b)"

text \<open>
  The \<^verbatim>\<open>while start < end\<close> loop. It has no evident bound for arbitrary \<open>start\<close> and
  \<open>end\<close> (the assignment \<^verbatim>\<open>start = mid\<close> need not make progress), so it is a partial
  function: the outer \<open>option\<close> is \<open>None\<close> exactly when the loop runs forever. Inside,
  \<open>Inl\<close> is a raised exception, \<open>Inr (Some v)\<close> is \<^verbatim>\<open>return v\<close>, and \<open>Inr None\<close> is the
  loop condition failing, after which the Python function ends without a \<^verbatim>\<open>return\<close> and so
  yields \<^verbatim>\<open>None\<close>. The indices stay non-negative, so \<^verbatim>\<open>ls[mid]\<close> raises exactly when
  \<open>mid\<close> is not below the length; \<^verbatim>\<open>len(ls) - 1\<close> is only evaluated after \<^verbatim>\<open>ls[mid]\<close> has
  succeeded, where the list is non-empty and truncated subtraction agrees with Python's.
\<close>

partial_function (option) search_loop ::
  "real list \<Rightarrow> real \<Rightarrow> nat \<Rightarrow> nat \<Rightarrow> (error + real option) option" where
  "search_loop ls target start end' =
     (if start < end' then
        (let mid = (start + end') div 2 in
         if length ls \<le> mid then Some (Inl IndexError)
         else if ls ! mid = target then Some (Inr (Some (ls ! mid)))
         else if ls ! mid < target then
           (if mid < length ls - 1 \<and> target < ls ! (mid + 1)
            then Some (Inr (Some (get_closer target (ls ! mid) (ls ! (mid + 1)))))
            else search_loop ls target mid end')
         else
           (if 0 < mid \<and> target > ls ! (mid - 1)
            then Some (Inr (Some (get_closer target (ls ! mid) (ls ! (mid - 1)))))
            else search_loop ls target start mid))
      else Some (Inr None))"

text \<open>
  \<^verbatim>\<open>ls[-1]\<close> and \<^verbatim>\<open>ls[0]\<close> raise \<^verbatim>\<open>IndexError\<close> on the empty list; on a non-empty list
  they are \<open>last ls\<close> and \<open>ls ! 0\<close>.
\<close>

definition find_nearest :: "real list \<Rightarrow> real \<Rightarrow> (error + real option) option" where
  "find_nearest ls target =
     (if ls = [] then Some (Inl IndexError)
      else if target \<ge> last ls then Some (Inr (Some (last ls)))
      else if target \<le> ls ! 0 then Some (Inr (Some (ls ! 0)))
      else search_loop ls target 0 (length ls))"

subsection \<open>Domain construction (\<open>discretize_observation_space\<close>)\<close>

text \<open>
  Modelled from the spec: \<^verbatim>\<open>numpy.arange\<close> is library code, absent from the sources. The
  specification describes the sequence \<open>min, min + step, min + 2 * step, \<dots>\<close> strictly below
  \<open>max\<close>; the library documents the length \<open>\<lceil>(stop - start) / step\<rceil>\<close> (none when that is
  not positive) and rejects a zero step. Floating-point rounding of the elements is not
  modelled.
\<close>

definition arange :: "real \<Rightarrow> real \<Rightarrow> real \<Rightarrow> error + real list" where
  "arange start stop step =
     (if step = 0 then Inl ZeroDivisionError
      else Inr (map (\<lambda>i. start + real i * step) [0 ..< nat \<lceil>(stop - start) / step\<rceil>]))"

text \<open>
  The outer \<^verbatim>\<open>for idx, bounds in enumerate(observation_space_bounds)\<close> loop; the inner loop
  copies the elements of the range into the list \<^verbatim>\<open>discrete_states\<close>. \<^verbatim>\<open>steps[idx]\<close> raises
  when there are fewer steps than bounds. A bound is a pair \<open>(min, max)\<close>.
\<close>

fun discretize_loop ::
  "nat \<Rightarrow> (real \<times> real) list \<Rightarrow> real list \<Rightarrow> real list list \<Rightarrow> error + real list list" where
  "discretize_loop idx [] steps discrete_space = Inr discrete_space"
| "discretize_loop idx (bounds # rest) steps discrete_space =
     (if length steps \<le> idx then Inl IndexError
      else case arange (fst bounds) (snd bounds) (steps ! idx) of
             Inl e \<Rightarrow> Inl e
           | Inr discrete_states \<Rightarrow>
               discretize_loop (idx + 1) rest steps (discrete_space @ [discrete_states]))"

definition discretize_observation_space ::
  "(real \<times> real) list \<Rightarrow> real list \<Rightarrow> error + real list list" where
  "discretize_observation_space observation_space_bounds steps =
     discretize_loop 0 observation_space_bounds steps []"

subsection \<open>Arrays\<close>

text \<open>
  The table is a numpy array with one axis per factor and a trailing axis over the actions.
  It is modelled as a nested structure: \<open>Cell\<close> is a scalar, \<open>Axis\<close> the list of the
  sub-arrays along the leading axis. Indexing with one integer (\<open>nd_index\<close>) selects a
  sub-array and raises \<^verbatim>\<open>IndexError\<close> out of range or on a scalar; the indices used by the
  program come from \<^verbatim>\<open>enumerate\<close> and are never negative.

  Modelled from the spec: \<^verbatim>\<open>numpy.zeros\<close> and \<^verbatim>\<open>ndarray.argmax\<close> are library code, absent from
  the sources. \<open>zeros\<close> is the zero-initialised dense array of the given shape; \<open>argmax\<close> is the
  index of the first occurrence of the maximum of a one-dimensional array (a left-to-right
  scan that replaces the candidate only by a strictly larger value) and raises
  \<^verbatim>\<open>ValueError\<close> on an empty one.
\<close>

datatype ndarray = Cell real | Axis "ndarray list"

fun zeros :: "nat list \<Rightarrow> ndarray" where
  "zeros [] = Cell 0"
| "zeros (n # shape) = Axis (replicate n (zeros shape))"

fun nd_index :: "ndarray \<Rightarrow> nat \<Rightarrow> error + ndarray" where
  "nd_index (Cell v) i = Inl IndexError"
| "nd_index (Axis xs) i = (if i < length xs then Inr (xs ! i) else Inl IndexError)"

text \<open>
  \<open>nd_set p v t\<close> stores \<open>v\<close> at the index path \<open>p\<close> of \<open>t\<close>; a path that leaves the array
  changes nothing. \<open>nd_map\<close> is elementwise arithmetic with a scalar.
\<close>

fun nd_set :: "nat list \<Rightarrow> ndarray \<Rightarrow> ndarray \<Rightarrow> ndarray" where
  "nd_set [] v t = v"
| "nd_set (i # p) v t =
     (case t of
        Cell c \<Rightarrow> t
      | Axis xs \<Rightarrow> if i < length xs then Axis (xs[i := nd_set p v (xs ! i)]) else t)"

primrec nd_map :: "(real \<Rightarrow> real) \<Rightarrow> ndarray \<Rightarrow> ndarray" where
  "nd_map f (Cell v) = Cell (f v)"
| "nd_map f (Axis xs) = Axis (map (nd_map f) xs)"

text \<open>\<open>cells xs\<close> reads a one-dimensional array: the scalars of \<open>xs\<close> when all elements are scalars.\<close>

fun cells :: "ndarray list \<Rightarrow> real list option" where
  "cells [] = Some []"
| "cells (Cell v # xs) = (case cells xs of None \<Rightarrow> None | Some vs \<Rightarrow> Some (v # vs))"
| "cells (Axis ys # xs) = None"

fun argmax_scan :: "real list \<Rightarrow> nat \<Rightarrow> nat \<Rightarrow> real \<Rightarrow> nat" where
  "argmax_scan [] i best best_value = best"
| "argmax_scan (x # xs) i best best_value =
     (if best_value < x then argmax_scan xs (i + 1) i x
      else argmax_scan xs (i + 1) best best_value)"

fun argmax :: "real list \<Rightarrow> error + nat" where
  "argmax [] = Inl ValueError"
| "argmax (x # xs) = Inr (argmax_scan xs 1 0 x)"

subsection \<open>The value table (\<open>class QTable\<close>)\<close>

text \<open>
  The dictionary comprehension \<^verbatim>\<open>{x : idx for idx, x in enumerate(xs)}\<close>: the entries are
  stored from left to right, so a repeated key keeps its last index.
\<close>

definition enumerate_dict :: "'k list \<Rightarrow> ('k \<rightharpoonup> nat)" where
  "enumerate_dict xs = fold (\<lambda>(idx, x) m. m(x \<mapsto> idx)) (enumerate 0 xs) Map.empty"

record 'a qtable =
  table :: ndarray
  states_idxs :: "(real \<rightharpoonup> nat) list"
  actions_idxs :: "'a \<rightharpoonup> nat"
  observation_space :: "real list list"
  actions :: "'a list"
  learning_rate :: real
  discount_rate :: real
  exploration_decay :: real
  exploration_rate :: real

text \<open>The constructor \<^verbatim>\<open>__init__\<close>; the Python default arguments are passed explicitly.\<close>

definition init ::
  "real list list \<Rightarrow> 'a list \<Rightarrow> real \<Rightarrow> real \<Rightarrow> real \<Rightarrow> 'a qtable" where
  "init observation_space' actions' learning_rate' discount_rate' exploration_decay' =
     \<lparr> table = zeros (map length observation_space' @ [length actions']),
       states_idxs = map enumerate_dict observation_space',
       actions_idxs = enumerate_dict actions',
       observation_space = observation_space',
       actions = actions',
       learning_rate = learning_rate',
       discount_rate = discount_rate',
       exploration_decay = exploration_decay',
       exploration_rate = 1 \<rparr>"

text \<open>
  \<^verbatim>\<open>_get_state_values\<close> drills into the table one factor at a time. Indexing a numpy array
  yields a view that shares the table's storage, and \<^verbatim>\<open>_update_qvalue\<close> writes through such
  a view. A view is therefore the pair of the sub-array's contents and the index path that
  leads to it from the table. In the loop body \<^verbatim>\<open>self._states_idxs[idx]\<close> raises
  \<^verbatim>\<open>IndexError\<close> when the state has more components than there are factors, the dictionary
  lookup raises \<^verbatim>\<open>KeyError\<close> for an unknown factor value, and the array indexing comes last.
\<close>

type_synonym view = "ndarray \<times> nat list"

fun state_values_loop ::
  "(real \<rightharpoonup> nat) list \<Rightarrow> nat \<Rightarrow> real list \<Rightarrow> view \<Rightarrow> error + view" where
  "state_values_loop idxs idx [] v = Inr v"
| "state_values_loop idxs idx (single_state # rest) (d, path) =
     (if length idxs \<le> idx then Inl IndexError
      else case (idxs ! idx) single_state of
             None \<Rightarrow> Inl KeyError
           | Some k \<Rightarrow>
               (case nd_index d k of
                  Inl e \<Rightarrow> Inl e
                | Inr d' \<Rightarrow> state_values_loop idxs (idx + 1) rest (d', path @ [k])))"

definition get_state_values :: "'a qtable \<Rightarrow> real list \<Rightarrow> error + view" where
  "get_state_values q state = state_values_loop (states_idxs q) 0 state (table q, [])"

text \<open>
  \<^verbatim>\<open>_get_qvalue\<close> returns what the indexing returns: a scalar for a state with one component
  per factor, a sub-array for a shorter state.
\<close>

definition get_qvalue :: "'a qtable \<Rightarrow> real list \<Rightarrow> 'a \<Rightarrow> error + ndarray" where
  "get_qvalue q state action =
     (case get_state_values q state of
        Inl e \<Rightarrow> Inl e
      | Inr (action_qvalues, path) \<Rightarrow>
          (case actions_idxs q action of
             None \<Rightarrow> Inl KeyError
           | Some a_idx \<Rightarrow> nd_index action_qvalues a_idx))"

text \<open>
  \<^verbatim>\<open>_update_qvalue\<close> mutates the table, so it returns the table next to its outcome; an
  exception leaves the object as it was. The assignment \<^verbatim>\<open>action_qvalues[a_idx] = new_value\<close>
  raises \<^verbatim>\<open>TypeError\<close> on a scalar (no item assignment) and \<^verbatim>\<open>IndexError\<close> out of range;
  otherwise it copies the value into the addressed element of the table. The copy is exact
  when the value has the shape of that element, which holds for the only caller,
  \<open>process_step\<close>, whose value is computed elementwise from that same element.
\<close>

definition update_qvalue ::
  "'a qtable \<Rightarrow> real list \<Rightarrow> 'a \<Rightarrow> ndarray \<Rightarrow> (error + unit) \<times> 'a qtable" where
  "update_qvalue q state action new_value =
     (case get_state_values q state of
        Inl e \<Rightarrow> (Inl e, q)
      | Inr (action_qvalues, path) \<Rightarrow>
          (case actions_idxs q action of
             None \<Rightarrow> (Inl KeyError, q)
           | Some a_idx \<Rightarrow>
               (case action_qvalues of
                  Cell v \<Rightarrow> (Inl TypeError, q)
                | Axis xs \<Rightarrow>
                    if a_idx < length xs
                    then (Inr (), q\<lparr>table := nd_set (path @ [a_idx]) new_value (table q)\<rparr>)
                    else (Inl IndexError, q))))"

text \<open>
  \<^verbatim>\<open>_get_max_action\<close>: \<^verbatim>\<open>argmax(axis = 0)\<close> of a one-dimensional array is one index. On an
  array with further axes it is an array of indices, which cannot index the Python list
  \<^verbatim>\<open>self.actions\<close> (\<^verbatim>\<open>TypeError\<close>); on a scalar it is 0, and indexing the scalar with it
  raises \<^verbatim>\<open>IndexError\<close>. The method does not change the table.
\<close>

definition get_max_action :: "'a qtable \<Rightarrow> real list \<Rightarrow> error + ('a \<times> real)" where
  "get_max_action q state =
     (case get_state_values q state of
        Inl e \<Rightarrow> Inl e
      | Inr (action_qvalues, path) \<Rightarrow>
          (case action_qvalues of
             Cell v \<Rightarrow> Inl IndexError
           | Axis xs \<Rightarrow>
               if xs = [] then Inl ValueError
               else (case cells xs of
                       None \<Rightarrow> Inl TypeError
                     | Some vs \<Rightarrow>
                         (case argmax vs of
                            Inl e \<Rightarrow> Inl e
                          | Inr max_idx \<Rightarrow>
                              if max_idx < length (actions q)
                              then Inr (actions q ! max_idx, vs ! max_idx)
                              else Inl IndexError))))"

definition process_step ::
  "'a qtable \<Rightarrow> real list \<Rightarrow> 'a \<Rightarrow> real list \<Rightarrow> real \<Rightarrow> (error + unit) \<times> 'a qtable" where
  "process_step q state action new_state reward =
     (case get_qvalue q state action of
        Inl e \<Rightarrow> (Inl e, q)
      | Inr old_qvalue \<Rightarrow>
          (case get_max_action q new_state of
             Inl e \<Rightarrow> (Inl e, q)
           | Inr (best, best_value) \<Rightarrow>
               (let new_qvalue = reward + discount_rate q * best_value
                in update_qvalue q state action
                     (nd_map (\<lambda>old. (1 - learning_rate q) * old + learning_rate q * new_qvalue)
                        old_qvalue))))"

definition update_exploration_rate :: "'a qtable \<Rightarrow> 'a qtable" where
  "update_exploration_rate q =
     q\<lparr>exploration_rate := exploration_rate q * (1 - exploration_decay q)\<rparr>"

subsection \<open>Specification vocabulary\<close>

text \<open>
  \<open>bracketed ls target v\<close>: \<open>v\<close> is what the search returns at a probe \<open>m\<close> that hits the
  target or brackets it together with a neighbour.
\<close>

definition bracketed :: "real list \<Rightarrow> real \<Rightarrow> real \<Rightarrow> bool" where
  "bracketed ls target v \<longleftrightarrow>
     (\<exists>m < length ls.
        (ls ! m = target \<and> v = ls ! m) \<or>
        (m + 1 < length ls \<and> ls ! m < target \<and> target < ls ! (m + 1) \<and>
           v = get_closer target (ls ! m) (ls ! (m + 1))) \<or>
        (0 < m \<and> ls ! (m - 1) < target \<and> target < ls ! m \<and>
           v = get_closer target (ls ! m) (ls ! (m - 1))))"

text \<open>
  \<open>first_probe i start end'\<close> is the bisection of the index interval alone, for a target
  that lies strictly between the elements at \<open>i\<close> and \<open>i + 1\<close>: with the midpoint
  \<open>mid = (start + end') div 2\<close> the interval becomes \<open>[mid, end')\<close> while \<open>mid < i\<close> and
  \<open>[start, mid)\<close> while \<open>i + 1 < mid\<close>, and the first midpoint that is \<open>i\<close> or \<open>i + 1\<close> is
  the result. Outside \<open>start \<le> i < end'\<close> it is the midpoint itself.
\<close>

function first_probe :: "nat \<Rightarrow> nat \<Rightarrow> nat \<Rightarrow> nat" where
  "first_probe i start end' =
     (let mid = (start + end') div 2 in
      if start \<le> i \<and> i < end' \<and> mid \<noteq> i \<and> mid \<noteq> i + 1
      then (if mid < i then first_probe i mid end' else first_probe i start mid)
      else mid)"
  by pat_completeness auto
termination
proof (relation "measure (\<lambda>(i, start, end'). end' - start)")
  show "wf (measure (\<lambda>(i, start, end'). end' - start))" by simp
next
  fix i start end' mid :: nat
  assume "mid = (start + end') div 2" "start \<le> i \<and> i < end' \<and> mid \<noteq> i \<and> mid \<noteq> i + 1" "mid < i"
  then show "((i, mid, end'), (i, start, end')) \<in> measure (\<lambda>(i, start, end'). end' - start)"
    by simp linarith
next
  fix i start end' mid :: nat
  assume "mid = (start + end') div 2" "start \<le> i \<and> i < end' \<and> mid \<noteq> i \<and> mid \<noteq> i + 1" "\<not> mid < i"
  then show "((i, start, mid), (i, start, end')) \<in> measure (\<lambda>(i, start, end'). end' - start)"
    by simp linarith
qed

declare first_probe.simps [simp del]

text \<open>
  \<open>has_shape shape t\<close>: \<open>t\<close> is a regular array of the given shape. \<open>nd_get p t\<close> reads the
  element at the index path \<open>p\<close>, if there is one; the cells of a table with \<open>n\<close> factors
  are at the paths of length \<open>n + 1\<close>.
\<close>

fun has_shape :: "nat list \<Rightarrow> ndarray \<Rightarrow> bool" where
  "has_shape [] t = (case t of Cell v \<Rightarrow> True | Axis xs \<Rightarrow> False)"
| "has_shape (n # shape) t =
     (case t of Cell v \<Rightarrow> False | Axis xs \<Rightarrow> length xs = n \<and> list_all (has_shape shape) xs)"

fun nd_get :: "nat list \<Rightarrow> ndarray \<Rightarrow> ndarray option" where
  "nd_get [] t = Some t"
| "nd_get (i # p) t =
     (case t of Cell v \<Rightarrow> None | Axis xs \<Rightarrow> if i < length xs then nd_get p (xs ! i) else None)"

text \<open>
  A state key is in the domain when it has one component per factor, each drawn from that
  factor's domain; it is out of the domain when some component is absent from the domain
  of its factor.
\<close>

definition in_domain :: "'a qtable \<Rightarrow> real list \<Rightarrow> bool" where
  "in_domain q state \<longleftrightarrow>
     list_all2 (\<lambda>factor domain. factor \<in> set domain) state (observation_space q)"

definition out_of_domain :: "'a qtable \<Rightarrow> real list \<Rightarrow> bool" where
  "out_of_domain q state \<longleftrightarrow>
     list_ex (\<lambda>(factor, domain). factor \<notin> set domain) (zip state (observation_space q))"

text \<open>
  The representation invariant of a constructed table: the index maps are those of the
  domains and actions given at construction, and the array has one axis per domain and
  the trailing action axis.
\<close>

definition table_inv :: "'a qtable \<Rightarrow> bool" where
  "table_inv q \<longleftrightarrow>
     states_idxs q = map enumerate_dict (observation_space q) \<and>
     actions_idxs q = enumerate_dict (actions q) \<and>
     has_shape (map length (observation_space q) @ [length (actions q)]) (table q)"

text \<open>
  The table of the worked example: one factor with domain \<open>[0, 1, 2]\<close>, two actions,
  learning rate \<open>1/2\<close>, discount rate \<open>1\<close>, and the values \<open>[2, 4]\<close> stored at state \<open>1\<close>.
\<close>

definition example_table :: "nat qtable" where
  "example_table =
     (init [ [0, 1, 2] ] [0, 1] (1 / 2) 1 (1 / 100))
       \<lparr>table := Axis [Axis [Cell 0, Cell 0], Axis [Cell 2, Cell 4], Axis [Cell 0, Cell 0] ]\<rparr>"

section \<open>Auxiliary lemmas\<close>

subsection \<open>The binary search\<close>

lemma search_loop_returns:
  assumes "start < end'" "end' \<le> length ls" "ls ! start < target"
    and "end' = length ls \<or> target < ls ! end'" "target < last ls"
  shows "\<exists>v. search_loop ls target start end' = Some (Inr (Some v)) \<and> bracketed ls target v"
  using assms
proof (induction "end' - start" arbitrary: start end' rule: less_induct)
  case less
  define mid where "mid = (start + end') div 2"
  have mid_bounds: "start \<le> mid" "mid < end'" "mid < length ls"
    using less.prems(1,2) by (auto simp: mid_def)
  have ne: "ls \<noteq> []" using mid_bounds by auto
  have unfold: "search_loop ls target start end' =
     (if ls ! mid = target then Some (Inr (Some (ls ! mid)))
      else if ls ! mid < target then
        (if mid < length ls - 1 \<and> target < ls ! (mid + 1)
         then Some (Inr (Some (get_closer target (ls ! mid) (ls ! (mid + 1)))))
         else search_loop ls target mid end')
      else
        (if 0 < mid \<and> ls ! (mid - 1) < target
         then Some (Inr (Some (get_closer target (ls ! mid) (ls ! (mid - 1)))))
         else search_loop ls target start mid))"
    using less.prems(1) mid_bounds(3)
    by (subst search_loop.simps) (simp add: mid_def Let_def)
  consider (hit) "ls ! mid = target"
    | (below) "ls ! mid < target"
    | (above) "target < ls ! mid"
    by linarith
  then show ?case
  proof cases
    case hit
    then show ?thesis
      using unfold mid_bounds(3) by (auto simp: bracketed_def)
  next
    case below
    show ?thesis
    proof (cases "mid < length ls - 1 \<and> target < ls ! (mid + 1)")
      case True
      then have "bracketed ls target (get_closer target (ls ! mid) (ls ! (mid + 1)))"
        unfolding bracketed_def using below mid_bounds(3)
        by (intro exI[of _ mid]) auto
      then show ?thesis using unfold below True by auto
    next
      case False
      have "mid \<noteq> length ls - 1"
        using below less.prems(5) ne by (auto simp: last_conv_nth)
      with False mid_bounds(3) have ge: "ls ! (mid + 1) \<le> target" "mid + 1 < length ls"
        by auto
      have "mid + 1 \<noteq> end'"
        using ge less.prems(4) by auto
      with mid_bounds(2) have lt: "mid + 1 < end'" by simp
      then have "start < mid" by (auto simp: mid_def)
      then have "end' - mid < end' - start" using mid_bounds by simp
      from less.hyps[OF this _ less.prems(2) below less.prems(4) less.prems(5)] mid_bounds(2)
      have "\<exists>v. search_loop ls target mid end' = Some (Inr (Some v)) \<and> bracketed ls target v"
        by simp
      then show ?thesis using unfold below False by auto
    qed
  next
    case above
    have "mid \<noteq> start" using above less.prems(3) by auto
    with mid_bounds(1) have sm: "start < mid" by simp
    show ?thesis
    proof (cases "0 < mid \<and> ls ! (mid - 1) < target")
      case True
      then have "bracketed ls target (get_closer target (ls ! mid) (ls ! (mid - 1)))"
        unfolding bracketed_def using above mid_bounds(3)
        by (intro exI[of _ mid]) auto
      then show ?thesis using unfold above True by auto
    next
      case False
      have "mid - start < end' - start" using mid_bounds sm by simp
      from less.hyps[OF this sm _ less.prems(3) _ less.prems(5)] above mid_bounds(3)
      have "\<exists>v. search_loop ls target start mid = Some (Inr (Some v)) \<and> bracketed ls target v"
        by simp
      then show ?thesis using unfold above False by auto
    qed
  qed
qed

lemma bracketed_nearest:
  assumes "sorted_wrt (<) ls" "bracketed ls target v"
  shows "v \<in> set ls \<and> (\<forall>x \<in> set ls. \<bar>target - v\<bar> \<le> \<bar>target - x\<bar>)"
proof -
  have mono: "\<And>i j. i \<le> j \<Longrightarrow> j < length ls \<Longrightarrow> ls ! i \<le> ls ! j"
    using assms(1) by (metis le_eq_less_or_eq less_eq_real_def sorted_wrt_nth_less)
  from assms(2) obtain m where m: "m < length ls"
    and cases: "(ls ! m = target \<and> v = ls ! m) \<or>
        (m + 1 < length ls \<and> ls ! m < target \<and> target < ls ! (m + 1) \<and>
           v = get_closer target (ls ! m) (ls ! (m + 1))) \<or>
        (0 < m \<and> ls ! (m - 1) < target \<and> target < ls ! m \<and>
           v = get_closer target (ls ! m) (ls ! (m - 1)))"
    unfolding bracketed_def by blast
  from cases show ?thesis
  proof (elim disjE conjE)
    assume "ls ! m = target" "v = ls ! m"
    then show ?thesis using m by auto
  next
    assume a: "m + 1 < length ls" "ls ! m < target" "target < ls ! (m + 1)"
      "v = get_closer target (ls ! m) (ls ! (m + 1))"
    have split: "y \<le> ls ! m \<or> ls ! (m + 1) \<le> y" if "y \<in> set ls" for y
    proof -
      from that obtain j where j: "j < length ls" "y = ls ! j" by (auto simp: in_set_conv_nth)
      show ?thesis
      proof (cases "j \<le> m")
        case True then show ?thesis using mono[of j m] m j by simp
      next
        case False then show ?thesis using mono[of "m + 1" j] j by simp
      qed
    qed
    have "v \<in> set ls" using a m by (auto simp: get_closer_def Let_def)
    moreover have "\<forall>x \<in> set ls. \<bar>target - v\<bar> \<le> \<bar>target - x\<bar>"
    proof
      fix x assume "x \<in> set ls"
      from split[OF this] show "\<bar>target - v\<bar> \<le> \<bar>target - x\<bar>"
        using a by (auto simp: get_closer_def Let_def split: if_splits)
    qed
    ultimately show ?thesis by simp
  next
    assume a: "0 < m" "ls ! (m - 1) < target" "target < ls ! m"
      "v = get_closer target (ls ! m) (ls ! (m - 1))"
    have split: "y \<le> ls ! (m - 1) \<or> ls ! m \<le> y" if "y \<in> set ls" for y
    proof -
      from that obtain j where j: "j < length ls" "y = ls ! j" by (auto simp: in_set_conv_nth)
      show ?thesis
      proof (cases "j \<le> m - 1")
        case True then show ?thesis using mono[of j "m - 1"] m j by simp
      next
        case False then show ?thesis using mono[of m j] j by simp
      qed
    qed
    have "v \<in> set ls" using a m by (auto simp: get_closer_def Let_def)
    moreover have "\<forall>x \<in> set ls. \<bar>target - v\<bar> \<le> \<bar>target - x\<bar>"
    proof
      fix x assume "x \<in> set ls"
      from split[OF this] show "\<bar>target - v\<bar> \<le> \<bar>target - x\<bar>"
        using a by (auto simp: get_closer_def Let_def split: if_splits)
    qed
    ultimately show ?thesis by simp
  qed
qed

lemma find_nearest_bracketed:
  assumes "ls \<noteq> []" "ls ! 0 < target" "target < last ls"
  shows "\<exists>v. find_nearest ls target = Some (Inr (Some v)) \<and> bracketed ls target v"
proof -
  have "\<exists>v. search_loop ls target 0 (length ls) = Some (Inr (Some v)) \<and> bracketed ls target v"
    using assms by (intro search_loop_returns) simp_all
  then show ?thesis using assms by (simp add: find_nearest_def)
qed

lemma sorted_first_last:
  assumes "sorted_wrt (<) (ls :: real list)" "x \<in> set ls"
  shows "ls ! 0 \<le> x \<and> x \<le> last ls"
proof -
  from assms(2) obtain j where j: "j < length ls" "x = ls ! j" by (auto simp: in_set_conv_nth)
  then have ne: "ls \<noteq> []" by auto
  have "ls ! 0 \<le> ls ! j"
    using sorted_wrt_nth_less[OF assms(1), of 0 j] j(1) by (cases "j = 0") auto
  moreover have "ls ! j \<le> ls ! (length ls - 1)"
  proof (cases "j = length ls - 1")
    case True
    then show ?thesis by simp
  next
    case False
    with j(1) have "j < length ls - 1" "length ls - 1 < length ls" by linarith+
    from sorted_wrt_nth_less[OF assms(1) this] show ?thesis by simp
  qed
  ultimately show ?thesis using j(2) ne by (simp add: last_conv_nth)
qed

lemma first_probe_range:
  "start \<le> i \<Longrightarrow> i < end' \<Longrightarrow> first_probe i start end' = i \<or> first_probe i start end' = i + 1"
proof (induction i start end' rule: first_probe.induct)
  case (1 i start end')
  define mid where "mid = (start + end') div 2"
  have bounds: "start \<le> mid" "mid < end'" using "1.prems" by (auto simp: mid_def)
  consider (hit) "mid = i \<or> mid = i + 1" | (below) "mid < i" | (above) "i + 1 < mid"
    by linarith
  then show ?case
  proof cases
    case hit
    have "first_probe i start end' = mid"
      using hit by (subst first_probe.simps) (auto simp: mid_def Let_def)
    with hit show ?thesis by auto
  next
    case below
    have "first_probe i start end' = first_probe i mid end'"
      using "1.prems" below by (subst first_probe.simps) (simp add: mid_def Let_def)
    moreover have "first_probe i mid end' = i \<or> first_probe i mid end' = i + 1"
      using "1.IH"(1)[OF mid_def] "1.prems" below by simp
    ultimately show ?thesis by simp
  next
    case above
    have "first_probe i start end' = first_probe i start mid"
      using "1.prems" above by (subst first_probe.simps) (simp add: mid_def Let_def)
    moreover have "first_probe i start mid = i \<or> first_probe i start mid = i + 1"
      using "1.IH"(2)[OF mid_def] "1.prems" above by simp
    ultimately show ?thesis by simp
  qed
qed

lemma get_closer_tie: "\<bar>target - a\<bar> = \<bar>target - b\<bar> \<Longrightarrow> get_closer target a b = a"
  by (simp add: get_closer_def Let_def)

lemma search_loop_tie:
  assumes "sorted_wrt (<) ls" "i + 1 < length ls"
    and "target - ls ! i = ls ! (i + 1) - target"
    and "start \<le> i" "i < end'" "end' \<le> length ls"
  shows "search_loop ls target start end' = Some (Inr (Some (ls ! first_probe i start end')))"
  using assms
proof (induction i start end' rule: first_probe.induct)
  case (1 i start end')
  note sorted = "1.prems"(1) and len = "1.prems"(2) and tie = "1.prems"(3)
  define mid where "mid = (start + end') div 2"
  have bounds: "start \<le> mid" "mid < end'" "mid < length ls"
    using "1.prems"(4,5,6) by (auto simp: mid_def)
  have lt: "ls ! i < ls ! (i + 1)"
    using sorted_wrt_nth_less[OF sorted, of i "i + 1"] len by simp
  with tie have between: "ls ! i < target" "target < ls ! (i + 1)" by linarith+
  have low: "ls ! j < target" if "j \<le> i" for j
  proof (cases "j = i")
    case True
    then show ?thesis using between by simp
  next
    case False
    with that have "j < i" by simp
    from sorted_wrt_nth_less[OF sorted this] len between show ?thesis by simp
  qed
  have high: "target < ls ! j" if "i + 1 \<le> j" "j < length ls" for j
  proof (cases "j = i + 1")
    case True
    then show ?thesis using between by simp
  next
    case False
    with that have "i + 1 < j" by simp
    from sorted_wrt_nth_less[OF sorted this that(2)] between show ?thesis by simp
  qed
  have unfold: "search_loop ls target start end' =
     (if ls ! mid = target then Some (Inr (Some (ls ! mid)))
      else if ls ! mid < target then
        (if mid < length ls - 1 \<and> target < ls ! (mid + 1)
         then Some (Inr (Some (get_closer target (ls ! mid) (ls ! (mid + 1)))))
         else search_loop ls target mid end')
      else
        (if 0 < mid \<and> ls ! (mid - 1) < target
         then Some (Inr (Some (get_closer target (ls ! mid) (ls ! (mid - 1)))))
         else search_loop ls target start mid))"
    using bounds "1.prems"(4,5)
    by (subst search_loop.simps) (simp add: mid_def Let_def)
  consider (at_i) "mid = i" | (at_next) "mid = i + 1" | (below) "mid < i" | (above) "i + 1 < mid"
    by linarith
  then show ?case
  proof cases
    case at_i
    have probe: "first_probe i start end' = i"
      using at_i by (subst first_probe.simps) (simp add: mid_def Let_def)
    have "get_closer target (ls ! i) (ls ! (i + 1)) = ls ! i"
      using tie between by (intro get_closer_tie) simp
    moreover have "mid < length ls - 1" using at_i len by simp
    ultimately show ?thesis
      using unfold at_i between probe by simp
  next
    case at_next
    have probe: "first_probe i start end' = i + 1"
      using at_next by (subst first_probe.simps) (simp add: mid_def Let_def)
    have "get_closer target (ls ! (i + 1)) (ls ! i) = ls ! (i + 1)"
      using tie between by (intro get_closer_tie) simp
    then show ?thesis
      using unfold at_next between probe by simp
  next
    case below
    have probe: "first_probe i start end' = first_probe i mid end'"
      using "1.prems"(4,5) below by (subst first_probe.simps) (simp add: mid_def Let_def)
    have "ls ! mid < target" "ls ! (mid + 1) < target"
      using low[of mid] low[of "mid + 1"] below by simp_all
    then have "search_loop ls target start end' = search_loop ls target mid end'"
      using unfold by simp
    moreover have "search_loop ls target mid end' = Some (Inr (Some (ls ! first_probe i mid end')))"
      using "1.IH"(1)[OF mid_def _ _ sorted len tie] "1.prems"(4,5,6) below by simp
    ultimately show ?thesis using probe by simp
  next
    case above
    have probe: "first_probe i start end' = first_probe i start mid"
      using "1.prems"(4,5) above by (subst first_probe.simps) (simp add: mid_def Let_def)
    have "target < ls ! mid" "target < ls ! (mid - 1)"
      using high[of mid] high[of "mid - 1"] above bounds(3) by simp_all
    then have "search_loop ls target start end' = search_loop ls target start mid"
      using unfold by simp
    moreover have "search_loop ls target start mid = Some (Inr (Some (ls ! first_probe i start mid)))"
      using "1.IH"(2)[OF mid_def _ _ sorted len tie] "1.prems"(4,5,6) above bounds by simp
    ultimately show ?thesis using probe by simp
  qed
qed

lemma find_nearest_examples:
  "find_nearest [0, 1, 2, 3, 4] (24 / 10) = Some (Inr (Some 2))"
  "find_nearest [0, 1, 2, 3] (5 / 2) = Some (Inr (Some 2))"
  "find_nearest [] target = Some (Inl IndexError)"
  by (simp_all add: find_nearest_def search_loop.simps get_closer_def)

subsection \<open>Dictionaries and \<open>argmax\<close>\<close>

lemma fold_enumerate_notin:
  "x \<notin> set xs \<Longrightarrow> fold (\<lambda>(idx, x) m. m(x \<mapsto> idx)) (enumerate n xs) m x = m x"
  by (induction xs arbitrary: n m) auto

lemma fold_enumerate_in:
  "x \<in> set xs \<Longrightarrow>
   \<exists>j < length xs. fold (\<lambda>(idx, x) m. m(x \<mapsto> idx)) (enumerate n xs) m x = Some (n + j) \<and> xs ! j = x"
proof (induction xs arbitrary: n m)
  case Nil
  then show ?case by simp
next
  case (Cons y ys)
  show ?case
  proof (cases "x \<in> set ys")
    case True
    from Cons.IH[OF True, of "Suc n" "m(y \<mapsto> n)"]
    obtain j where "j < length ys"
      "fold (\<lambda>(idx, x) m. m(x \<mapsto> idx)) (enumerate (Suc n) ys) (m(y \<mapsto> n)) x = Some (Suc n + j)"
      "ys ! j = x" by blast
    then show ?thesis by (intro exI[of _ "Suc j"]) (simp del: fun_upd_apply)
  next
    case False
    with Cons.prems have "x = y" by simp
    with False show ?thesis
      by (intro exI[of _ 0]) (simp add: fold_enumerate_notin fun_upd_same del: fun_upd_apply)
  qed
qed

lemma enumerate_dict_notin: "x \<notin> set xs \<Longrightarrow> enumerate_dict xs x = None"
  by (simp add: enumerate_dict_def fold_enumerate_notin)

lemma enumerate_dict_in:
  "x \<in> set xs \<Longrightarrow> \<exists>j < length xs. enumerate_dict xs x = Some j \<and> xs ! j = x"
  using fold_enumerate_in[of x xs 0 Map.empty] by (simp add: enumerate_dict_def)

lemma enumerate_dict_Some:
  "enumerate_dict xs x = Some j \<Longrightarrow> j < length xs \<and> xs ! j = x"
  using enumerate_dict_in[of x xs] enumerate_dict_notin[of x xs] by (cases "x \<in> set xs") auto

lemma enumerate_dict_distinct:
  "distinct xs \<Longrightarrow> j < length xs \<Longrightarrow> enumerate_dict xs (xs ! j) = Some j"
  using enumerate_dict_in[of "xs ! j" xs] by (auto simp: nth_eq_iff_index_eq)

lemma argmax_scan_first_max:
  assumes "length pre = i" "best < i" "pre ! best = bv"
    and "\<forall>j < i. pre ! j \<le> bv" "\<forall>j < best. pre ! j < bv"
  shows "argmax_scan xs i best bv < length (pre @ xs) \<and>
         (\<forall>j < length (pre @ xs). (pre @ xs) ! j \<le> (pre @ xs) ! argmax_scan xs i best bv) \<and>
         (\<forall>j < argmax_scan xs i best bv. (pre @ xs) ! j < (pre @ xs) ! argmax_scan xs i best bv)"
  using assms
proof (induction xs arbitrary: pre i best bv)
  case Nil
  then show ?case by simp
next
  case (Cons x xs)
  have app: "pre @ x # xs = (pre @ [x]) @ xs" by simp
  show ?case
  proof (cases "bv < x")
    case True
    have "argmax_scan xs (i + 1) i x < length ((pre @ [x]) @ xs) \<and>
         (\<forall>j < length ((pre @ [x]) @ xs). ((pre @ [x]) @ xs) ! j \<le> ((pre @ [x]) @ xs) ! argmax_scan xs (i + 1) i x) \<and>
         (\<forall>j < argmax_scan xs (i + 1) i x. ((pre @ [x]) @ xs) ! j < ((pre @ [x]) @ xs) ! argmax_scan xs (i + 1) i x)"
    proof (rule Cons.IH)
      show "length (pre @ [x]) = i + 1" using Cons.prems(1) by simp
      show "i < i + 1" by simp
      show "(pre @ [x]) ! i = x" using Cons.prems(1) by auto
      show "\<forall>j<i + 1. (pre @ [x]) ! j \<le> x"
        using Cons.prems(1,4) True by (auto simp: nth_append less_Suc_eq)
      show "\<forall>j<i. (pre @ [x]) ! j < x"
        using Cons.prems(1,4) True by (auto simp: nth_append)
    qed
    then show ?thesis using True unfolding app by simp
  next
    case False
    have "argmax_scan xs (i + 1) best bv < length ((pre @ [x]) @ xs) \<and>
         (\<forall>j < length ((pre @ [x]) @ xs). ((pre @ [x]) @ xs) ! j \<le> ((pre @ [x]) @ xs) ! argmax_scan xs (i + 1) best bv) \<and>
         (\<forall>j < argmax_scan xs (i + 1) best bv. ((pre @ [x]) @ xs) ! j < ((pre @ [x]) @ xs) ! argmax_scan xs (i + 1) best bv)"
    proof (rule Cons.IH)
      show "length (pre @ [x]) = i + 1" using Cons.prems(1) by simp
      show "best < i + 1" using Cons.prems(2) by simp
      show "(pre @ [x]) ! best = bv" using Cons.prems(1,2,3) by (simp add: nth_append)
      show "\<forall>j<i + 1. (pre @ [x]) ! j \<le> bv"
        using Cons.prems(1,4) False by (auto simp: nth_append less_Suc_eq)
      show "\<forall>j<best. (pre @ [x]) ! j < bv"
        using Cons.prems(1,2,5) by (auto simp: nth_append)
    qed
    then show ?thesis using False unfolding app by simp
  qed
qed

lemma argmax_first_max:
  assumes "vs \<noteq> []"
  shows "\<exists>m. argmax vs = Inr m \<and> m < length vs \<and>
             (\<forall>j < length vs. vs ! j \<le> vs ! m) \<and> (\<forall>j < m. vs ! j < vs ! m)"
proof -
  from assms obtain x xs where vs: "vs = x # xs" by (cases vs) auto
  have "argmax_scan xs 1 0 x < length ([x] @ xs) \<and>
         (\<forall>j < length ([x] @ xs). ([x] @ xs) ! j \<le> ([x] @ xs) ! argmax_scan xs 1 0 x) \<and>
         (\<forall>j < argmax_scan xs 1 0 x. ([x] @ xs) ! j < ([x] @ xs) ! argmax_scan xs 1 0 x)"
    by (rule argmax_scan_first_max) simp_all
  then show ?thesis by (simp add: vs)
qed

subsection \<open>Arrays and index paths\<close>

lemma nd_index_get: "nd_index d k = Inr d2 \<Longrightarrow> nd_get (k # p) d = nd_get p d2"
  by (cases d) (auto split: if_splits)

lemma nd_get_single: "nd_get [k] d = (case nd_index d k of Inl e \<Rightarrow> None | Inr x \<Rightarrow> Some x)"
  by (cases d) auto

lemma nd_get_append: "nd_get (p @ p') t = (case nd_get p t of None \<Rightarrow> None | Some d \<Rightarrow> nd_get p' d)"
  by (induction p arbitrary: t) (auto split: ndarray.splits)

lemma nd_get_snoc:
  "nd_get p t = Some d \<Longrightarrow> nd_index d k = Inr old \<Longrightarrow> nd_get (p @ [k]) t = Some old"
  by (cases d) (auto simp: nd_get_append split: if_splits)

lemma nd_get_nd_set_same: "nd_get p t \<noteq> None \<Longrightarrow> nd_get p (nd_set p v t) = Some v"
  by (induction p arbitrary: t) (auto split: ndarray.splits if_splits)

lemma nd_get_nd_set_other:
  "length p' = length p \<Longrightarrow> p' \<noteq> p \<Longrightarrow> nd_get p' (nd_set p v t) = nd_get p' t"
proof (induction p arbitrary: p' t)
  case Nil
  then show ?case by simp
next
  case (Cons i p)
  from Cons.prems(1) obtain j r where p': "p' = j # r" "length r = length p"
    by (cases p') auto
  show ?case
  proof (cases t)
    case (Cell c)
    then show ?thesis by simp
  next
    case (Axis xs)
    show ?thesis
    proof (cases "j = i")
      case True
      with Cons.prems(2) p' have "r \<noteq> p" by simp
      from Cons.IH[OF p'(2) this] show ?thesis
        using Axis p' True by simp
    next
      case False
      then show ?thesis using Axis p' by simp
    qed
  qed
qed

lemma has_shape_zeros: "has_shape shape (zeros shape)"
  by (induction shape) (auto simp: list_all_iff)

lemma has_shape_nd_map: "has_shape shape t \<Longrightarrow> has_shape shape (nd_map f t)"
  by (induction shape arbitrary: t) (auto simp: list_all_iff split: ndarray.splits)

lemma has_shape_nd_get:
  "has_shape shape t \<Longrightarrow> nd_get p t = Some old \<Longrightarrow> has_shape (drop (length p) shape) old"
proof (induction p arbitrary: shape t)
  case Nil
  then show ?case by simp
next
  case (Cons i p)
  from Cons.prems(2) obtain xs where t: "t = Axis xs" "i < length xs" "nd_get p (xs ! i) = Some old"
    by (cases t) (auto split: if_splits)
  with Cons.prems(1) obtain n sh where sh: "shape = n # sh" "has_shape sh (xs ! i)"
    by (cases shape) (auto simp: list_all_length)
  from Cons.IH[OF sh(2) t(3)] show ?case using sh(1) by simp
qed

lemma has_shape_nd_set:
  "has_shape shape t \<Longrightarrow> nd_get p t = Some old \<Longrightarrow> has_shape (drop (length p) shape) v \<Longrightarrow>
   has_shape shape (nd_set p v t)"
proof (induction p arbitrary: shape t)
  case Nil
  then show ?case by simp
next
  case (Cons i p)
  from Cons.prems(2) obtain xs where t: "t = Axis xs" "i < length xs" "nd_get p (xs ! i) = Some old"
    by (cases t) (auto split: if_splits)
  with Cons.prems(1) obtain n sh where sh: "shape = n # sh" "length xs = n" "list_all (has_shape sh) xs"
    by (cases shape) auto
  then have "has_shape sh (xs ! i)" using t(2) by (simp add: list_all_length)
  from Cons.IH[OF this t(3)] Cons.prems(3) sh(1)
  have "has_shape sh (nd_set p v (xs ! i))" by simp
  then have "list_all (has_shape sh) (xs[i := nd_set p v (xs ! i)])"
    using sh(3) t(2) by (auto simp: list_all_length nth_list_update)
  then show ?case using t sh by simp
qed

lemma has_shape_row:
  "has_shape [k] d \<Longrightarrow> \<exists>vs. d = Axis (map Cell vs) \<and> length vs = k"
proof -
  assume a: "has_shape [k] d"
  then obtain xs where d: "d = Axis xs" "length xs = k" "list_all (has_shape []) xs"
    by (cases d) auto
  have "\<exists>vs. xs = map Cell vs" using d(3)
  proof (induction xs)
    case Nil
    then show ?case by simp
  next
    case (Cons x xs)
    then obtain vs where "xs = map Cell vs" by auto
    moreover from Cons.prems obtain c where "x = Cell c" by (cases x) auto
    ultimately have "x # xs = map Cell (c # vs)" by simp
    then show ?case by (rule exI)
  qed
  then show ?thesis using d by auto
qed

lemma cells_map_Cell: "cells (map Cell vs) = Some vs"
  by (induction vs) auto

subsection \<open>Index resolution\<close>

lemma svl_path:
  "state_values_loop idxs idx rest (d, path) = Inr (d', path') \<Longrightarrow>
   \<exists>p. path' = path @ p \<and> nd_get p d = Some d' \<and> length p = length rest"
proof (induction rest arbitrary: idx d path)
  case Nil
  then show ?case by simp
next
  case (Cons x rest)
  from Cons.prems obtain k d2 where step: "idx < length idxs" "(idxs ! idx) x = Some k"
    "nd_index d k = Inr d2"
    "state_values_loop idxs (idx + 1) rest (d2, path @ [k]) = Inr (d', path')"
    by (auto split: if_splits option.splits sum.splits)
  from Cons.IH[OF step(4)] obtain p where p: "path' = (path @ [k]) @ p" "nd_get p d2 = Some d'"
    "length p = length rest" by blast
  have "nd_get (k # p) d = Some d'" using nd_index_get[OF step(3)] p(2) by simp
  with p show ?case by (intro exI[of _ "k # p"]) simp
qed

lemma svl_path_indep:
  "state_values_loop idxs idx rest (d1, path) = Inr (d1', p1) \<Longrightarrow>
   state_values_loop idxs idx rest (d2, path) = Inr (d2', p2) \<Longrightarrow> p1 = p2"
proof (induction rest arbitrary: idx d1 d2 path)
  case Nil
  then show ?case by simp
next
  case (Cons x rest)
  from Cons.prems(1) obtain k e1 where s1: "(idxs ! idx) x = Some k"
    "state_values_loop idxs (idx + 1) rest (e1, path @ [k]) = Inr (d1', p1)"
    by (auto split: if_splits option.splits sum.splits)
  from Cons.prems(2) s1(1) obtain e2 where s2:
    "state_values_loop idxs (idx + 1) rest (e2, path @ [k]) = Inr (d2', p2)"
    by (auto split: if_splits option.splits sum.splits)
  from Cons.IH[OF s1(2) s2] show ?case .
qed

lemma svl_in_domain:
  "list_all2 (\<lambda>factor domain. factor \<in> set domain) rest (drop idx obs) \<Longrightarrow>
   has_shape (map length (drop idx obs) @ [k]) d \<Longrightarrow>
   \<exists>d' path'. state_values_loop (map enumerate_dict obs) idx rest (d, path) = Inr (d', path') \<and>
     has_shape [k] d'"
proof (induction rest arbitrary: idx d path)
  case Nil
  then show ?case by simp
next
  case (Cons x rest)
  from Cons.prems(1) obtain dm ds where dr: "drop idx obs = dm # ds" "x \<in> set dm"
    "list_all2 (\<lambda>factor domain. factor \<in> set domain) rest ds"
    by (auto simp: list_all2_Cons1)
  then have idx: "idx < length obs" by (cases "idx < length obs") auto
  with dr(1) have dm: "dm = obs ! idx" "ds = drop (Suc idx) obs"
    using Cons_nth_drop_Suc[OF idx] by auto
  from enumerate_dict_in[OF dr(2)] obtain j where j: "j < length dm" "enumerate_dict dm x = Some j"
    by blast
  from Cons.prems(2) dr(1) obtain xs where xs: "d = Axis xs" "length xs = length dm"
    "list_all (has_shape (map length ds @ [k])) xs"
    by (cases d) auto
  then have sub: "has_shape (map length (drop (Suc idx) obs) @ [k]) (xs ! j)"
    using j(1) dm(2) by (simp add: list_all_length)
  from dr(3) dm(2) have "list_all2 (\<lambda>factor domain. factor \<in> set domain) rest (drop (Suc idx) obs)"
    by simp
  from Cons.IH[OF this sub, of "path @ [j]"] show ?case
    using idx j xs dm by simp
qed

lemma svl_out_of_domain:
  "list_ex (\<lambda>(factor, domain). factor \<notin> set domain) (zip rest (drop idx obs)) \<Longrightarrow>
   \<exists>e. state_values_loop (map enumerate_dict obs) idx rest v = Inl e"
proof (induction rest arbitrary: idx v)
  case Nil
  then show ?case by simp
next
  case (Cons x rest)
  obtain d path where v: "v = (d, path)" by (cases v)
  from Cons.prems have idx: "idx < length obs" by (cases "idx < length obs") auto
  have dr: "drop idx obs = obs ! idx # drop (Suc idx) obs"
    using Cons_nth_drop_Suc[OF idx] by simp
  show ?case
  proof (cases "x \<in> set (obs ! idx)")
    case False
    then show ?thesis using idx v by (simp add: enumerate_dict_notin)
  next
    case True
    with Cons.prems dr have
      "list_ex (\<lambda>(factor, domain). factor \<notin> set domain) (zip rest (drop (Suc idx) obs))"
      by simp
    from Cons.IH[OF this] show ?thesis
      using idx v by (auto split: option.splits sum.splits)
  qed
qed

lemma get_state_values_path:
  "get_state_values q state = Inr (d, p0) \<Longrightarrow>
   nd_get p0 (table q) = Some d \<and> length p0 = length state"
  using svl_path[of "states_idxs q" 0 state "table q" "[]" d p0]
  by (auto simp: get_state_values_def)

lemma get_state_values_in_domain:
  assumes "table_inv q" "in_domain q state"
  shows "\<exists>vs p0. get_state_values q state = Inr (Axis (map Cell vs), p0) \<and>
           length vs = length (actions q)"
proof -
  from assms have
    "\<exists>d' path'. state_values_loop (map enumerate_dict (observation_space q)) 0 state (table q, [])
        = Inr (d', path') \<and> has_shape [length (actions q)] d'"
    by (intro svl_in_domain) (simp_all add: table_inv_def in_domain_def)
  then obtain d' path' where
    "get_state_values q state = Inr (d', path')" "has_shape [length (actions q)] d'"
    using assms(1) by (auto simp: get_state_values_def table_inv_def)
  with has_shape_row[OF this(2)] show ?thesis by auto
qed

lemma get_state_values_out_of_domain:
  assumes "table_inv q" "out_of_domain q state"
  shows "\<exists>e. get_state_values q state = Inl e"
  using svl_out_of_domain[of state 0 "observation_space q" "(table q, [])"] assms
  by (simp add: get_state_values_def table_inv_def out_of_domain_def)

lemma get_state_values_table_indep:
  assumes "get_state_values q state = Inr (d, p0)"
    and "get_state_values (q\<lparr>table := t\<rparr>) state = Inr (d', p0')"
  shows "p0' = p0"
  using svl_path_indep[of "states_idxs q" 0 state t "[]" d' p0' "table q" d p0] assms
  by (simp add: get_state_values_def)

lemma get_qvalue_row:
  assumes "get_state_values q state = Inr (Axis (map Cell vs), p0)"
    and "actions_idxs q action = Some k" "k < length vs"
  shows "get_qvalue q state action = Inr (Cell (vs ! k))"
  using assms by (simp add: get_qvalue_def)

lemma get_max_action_in_domain:
  assumes "table_inv q" "get_state_values q state = Inr (Axis (map Cell vs), p0)"
    "length vs = length (actions q)" "actions q \<noteq> []"
  shows "\<exists>m. get_max_action q state = Inr (actions q ! m, vs ! m) \<and> m < length vs \<and>
           (\<forall>j < length vs. vs ! j \<le> vs ! m) \<and> (\<forall>j < m. vs ! j < vs ! m)"
proof -
  from assms(3,4) have ne: "vs \<noteq> []" by auto
  from argmax_first_max[OF ne] obtain m where m: "argmax vs = Inr m" "m < length vs"
    "\<forall>j < length vs. vs ! j \<le> vs ! m" "\<forall>j < m. vs ! j < vs ! m" by blast
  have "get_max_action q state = Inr (actions q ! m, vs ! m)"
    using assms(2,3) ne m(1,2) by (simp add: get_max_action_def cells_map_Cell)
  with m show ?thesis by blast
qed

subsection \<open>The update step and the invariant\<close>

lemma process_step_cases:
  "(\<exists>e. process_step q state action new_state reward = (Inl e, q)) \<or>
   (\<exists>d p0 k old best bv.
      get_state_values q state = Inr (d, p0) \<and> actions_idxs q action = Some k \<and>
      nd_index d k = Inr old \<and> get_max_action q new_state = Inr (best, bv) \<and>
      process_step q state action new_state reward =
        (Inr (), q\<lparr>table := nd_set (p0 @ [k])
           (nd_map (\<lambda>old. (1 - learning_rate q) * old + learning_rate q * (reward + discount_rate q * bv)) old)
           (table q)\<rparr>))"
  by (auto simp: process_step_def get_qvalue_def update_qvalue_def Let_def
      split: sum.splits option.splits prod.splits ndarray.splits if_splits)

lemma process_step_proceeds:
  assumes "table_inv q" "get_state_values q state = Inr (d, p0)"
    "actions_idxs q action = Some k" "get_max_action q new_state = Inr (best, bv)"
  shows "\<not> out_of_domain q state \<and> action \<in> set (actions q) \<and> \<not> out_of_domain q new_state"
proof -
  from assms(2) get_state_values_out_of_domain[OF assms(1), of state]
  have 1: "\<not> out_of_domain q state" by auto
  from assms(3,1) have 2: "action \<in> set (actions q)"
    using enumerate_dict_notin[of action "actions q"] by (auto simp: table_inv_def)
  from assms(4) get_state_values_out_of_domain[OF assms(1), of new_state]
  have 3: "\<not> out_of_domain q new_state"
    by (auto simp: get_max_action_def)
  from 1 2 3 show ?thesis by blast
qed

lemma table_inv_init:
  "table_inv (init obs acts lr dr decay)"
  by (simp add: table_inv_def init_def has_shape_zeros)

lemma table_inv_process_step:
  assumes "table_inv q"
  shows "table_inv (snd (process_step q state action new_state reward))"
proof -
  let ?sh = "map length (observation_space q) @ [length (actions q)]"
  from process_step_cases[of q state action new_state reward]
  show ?thesis
  proof (elim disjE exE conjE)
    fix e assume "process_step q state action new_state reward = (Inl e, q)"
    then show ?thesis using assms by simp
  next
    fix d p0 k old best bv
    assume a: "get_state_values q state = Inr (d, p0)" "nd_index d k = Inr old"
      and ps: "process_step q state action new_state reward =
        (Inr (), q\<lparr>table := nd_set (p0 @ [k])
           (nd_map (\<lambda>old. (1 - learning_rate q) * old + learning_rate q * (reward + discount_rate q * bv)) old)
           (table q)\<rparr>)"
    from get_state_values_path[OF a(1)] have "nd_get p0 (table q) = Some d" by simp
    then have old: "nd_get (p0 @ [k]) (table q) = Some old"
      using a(2) by (rule nd_get_snoc)
    have sh: "has_shape ?sh (table q)" using assms by (simp add: table_inv_def)
    from has_shape_nd_get[OF sh old]
    have "has_shape (drop (length (p0 @ [k])) ?sh)
            (nd_map (\<lambda>old. (1 - learning_rate q) * old + learning_rate q * (reward + discount_rate q * bv)) old)"
      by (rule has_shape_nd_map)
    from has_shape_nd_set[OF sh old this] show ?thesis
      using assms ps by (simp add: table_inv_def)
  qed
qed

lemma table_inv_update_exploration_rate:
  "table_inv q \<Longrightarrow> table_inv (update_exploration_rate q)"
  by (simp add: table_inv_def update_exploration_rate_def)

lemma process_step_in_domain:
  assumes "table_inv q" "in_domain q state" "action \<in> set (actions q)" "in_domain q new_state"
  obtains vs p0 k ws p1 m where
    "get_state_values q state = Inr (Axis (map Cell vs), p0)" "length vs = length (actions q)"
    "actions_idxs q action = Some k" "k < length (actions q)" "actions q ! k = action"
    "get_state_values q new_state = Inr (Axis (map Cell ws), p1)" "length ws = length (actions q)"
    "m < length ws" "\<forall>j < length ws. ws ! j \<le> ws ! m" "\<forall>j < m. ws ! j < ws ! m"
    "get_max_action q new_state = Inr (actions q ! m, ws ! m)"
    "process_step q state action new_state reward =
        (Inr (), q\<lparr>table := nd_set (p0 @ [k])
           (Cell ((1 - learning_rate q) * vs ! k + learning_rate q * (reward + discount_rate q * ws ! m)))
           (table q)\<rparr>)"
proof -
  from get_state_values_in_domain[OF assms(1,2)] obtain vs p0 where
    vs: "get_state_values q state = Inr (Axis (map Cell vs), p0)" "length vs = length (actions q)"
    by blast
  from get_state_values_in_domain[OF assms(1,4)] obtain ws p1 where
    ws: "get_state_values q new_state = Inr (Axis (map Cell ws), p1)" "length ws = length (actions q)"
    by blast
  from assms(1,3) enumerate_dict_in[of action "actions q"] obtain k where
    k: "actions_idxs q action = Some k" "k < length (actions q)" "actions q ! k = action"
    by (auto simp: table_inv_def)
  from assms(3) have ne: "actions q \<noteq> []" by auto
  from get_max_action_in_domain[OF assms(1) ws ne] obtain m where
    m: "get_max_action q new_state = Inr (actions q ! m, ws ! m)" "m < length ws"
      "\<forall>j < length ws. ws ! j \<le> ws ! m" "\<forall>j < m. ws ! j < ws ! m" by blast
  have ps: "process_step q state action new_state reward =
        (Inr (), q\<lparr>table := nd_set (p0 @ [k])
           (Cell ((1 - learning_rate q) * vs ! k + learning_rate q * (reward + discount_rate q * ws ! m)))
           (table q)\<rparr>)"
    using vs k m(1)
    by (simp add: process_step_def get_qvalue_def update_qvalue_def Let_def)
  from that[OF vs k ws m(2,3,4,1) ps] show thesis .
qed

lemma process_step_example:
  "get_qvalue example_table [0] 0 = Inr (Cell 0)"
  "get_max_action example_table [1] = Inr (1, 4)"
  "fst (process_step example_table [0] 0 [1] 1) = Inr ()"
  "get_qvalue (snd (process_step example_table [0] 0 [1] 1)) [0] 0 = Inr (Cell (5 / 2))"
  by (simp_all add: example_table_def init_def process_step_def get_max_action_def
      update_qvalue_def get_qvalue_def get_state_values_def enumerate_dict_def
      enumerate_eq_zip upt_rec)

lemma decay_iterate:
  "exploration_decay ((update_exploration_rate ^^ n) q) = exploration_decay q \<and>
   exploration_rate ((update_exploration_rate ^^ n) q) =
     exploration_rate q * (1 - exploration_decay q) ^ n"
  by (induction n) (simp_all add: update_exploration_rate_def)

subsection \<open>Domain construction\<close>

lemma discretize_loop_total:
  assumes "idx + length bounds \<le> length steps" "\<forall>i < length bounds. steps ! (idx + i) \<noteq> 0"
  shows "\<exists>ds. discretize_loop idx bounds steps acc = Inr (acc @ ds) \<and> length ds = length bounds \<and>
           (\<forall>i < length bounds. arange (fst (bounds ! i)) (snd (bounds ! i)) (steps ! (idx + i))
               = Inr (ds ! i))"
  using assms
proof (induction bounds arbitrary: idx acc)
  case Nil
  then show ?case by simp
next
  case (Cons b bounds)
  from Cons.prems(2) have nz: "steps ! idx \<noteq> 0" by auto
  then obtain d where d: "arange (fst b) (snd b) (steps ! idx) = Inr d"
    by (auto simp: arange_def)
  have "\<forall>i < length bounds. steps ! (idx + 1 + i) \<noteq> 0"
    using Cons.prems(2) by auto
  with Cons.IH[of "idx + 1" "acc @ [d]"] Cons.prems(1) obtain ds where
    ds: "discretize_loop (idx + 1) bounds steps (acc @ [d]) = Inr ((acc @ [d]) @ ds)"
      "length ds = length bounds"
      "\<forall>i < length bounds. arange (fst (bounds ! i)) (snd (bounds ! i)) (steps ! (idx + 1 + i))
               = Inr (ds ! i)"
    by auto
  have "\<forall>i < length (b # bounds). arange (fst ((b # bounds) ! i)) (snd ((b # bounds) ! i)) (steps ! (idx + i))
               = Inr ((d # ds) ! i)"
  proof (intro allI impI)
    fix i assume "i < length (b # bounds)"
    then show "arange (fst ((b # bounds) ! i)) (snd ((b # bounds) ! i)) (steps ! (idx + i))
               = Inr ((d # ds) ! i)"
      using d ds(3) by (cases i) auto
  qed
  moreover have "discretize_loop idx (b # bounds) steps acc = Inr (acc @ d # ds)"
    using Cons.prems(1) d ds(1) by simp
  ultimately show ?case using ds(2) by (intro exI[of _ "d # ds"]) simp
qed

lemma arange_empty_iff:
  "step \<noteq> 0 \<Longrightarrow> arange start stop step = Inr ds \<Longrightarrow> ds = [] \<longleftrightarrow> (stop - start) / step \<le> 0"
  by (auto simp: arange_def ceiling_le_zero)

section \<open>The claims\<close>

text \<open>
  \<^bold>\<open>C1\<close> (Bellman update). Let the table satisfy its representation invariant, with
  pairwise distinct actions (an action set), and let \<open>state\<close>, \<open>action\<close> and \<open>new_state\<close>
  be in the domains and the action set. Then \<open>process_step\<close> succeeds, and afterwards the
  cell of \<open>(state, action)\<close> holds
  \<open>(1 - learning_rate) * old + learning_rate * (reward + discount_rate * best)\<close>, where \<open>old\<close>
  is the value of that cell before the call and \<open>best\<close> is the maximum over all actions of
  the values stored at \<open>new_state\<close> before the call (an upper bound that one action
  attains). The call leaves the learning rate and the discount rate as they are.
\<close>

theorem process_step_bellman:
  assumes "table_inv q" "distinct (actions q)"
    and "in_domain q state" "action \<in> set (actions q)" "in_domain q new_state"
  shows "\<exists>old best q'.
           get_qvalue q state action = Inr (Cell old) \<and>
           (\<forall>a' \<in> set (actions q). \<exists>v. get_qvalue q new_state a' = Inr (Cell v) \<and> v \<le> best) \<and>
           (\<exists>a' \<in> set (actions q). get_qvalue q new_state a' = Inr (Cell best)) \<and>
           process_step q state action new_state reward = (Inr (), q') \<and>
           get_qvalue q' state action =
             Inr (Cell ((1 - learning_rate q) * old +
                        learning_rate q * (reward + discount_rate q * best))) \<and>
           learning_rate q' = learning_rate q \<and> discount_rate q' = discount_rate q"
proof -
  from assms(1,3,4,5) obtain vs p0 k ws p1 m where
    vs: "get_state_values q state = Inr (Axis (map Cell vs), p0)" "length vs = length (actions q)"
    and k: "actions_idxs q action = Some k" "k < length (actions q)"
    and ws: "get_state_values q new_state = Inr (Axis (map Cell ws), p1)" "length ws = length (actions q)"
    and m: "m < length ws" "\<forall>j < length ws. ws ! j \<le> ws ! m"
    and ps: "process_step q state action new_state reward =
        (Inr (), q\<lparr>table := nd_set (p0 @ [k])
           (Cell ((1 - learning_rate q) * vs ! k + learning_rate q * (reward + discount_rate q * ws ! m)))
           (table q)\<rparr>)"
    by (rule process_step_in_domain[where reward = reward])
  let ?new = "(1 - learning_rate q) * vs ! k + learning_rate q * (reward + discount_rate q * ws ! m)"
  let ?q' = "q\<lparr>table := nd_set (p0 @ [k]) (Cell ?new) (table q)\<rparr>"
  have old: "get_qvalue q state action = Inr (Cell (vs ! k))"
    using vs k by (simp add: get_qvalue_row)
  have row: "\<exists>j < length ws. get_qvalue q new_state a' = Inr (Cell (ws ! j))"
    if "a' \<in> set (actions q)" for a'
  proof -
    from assms(1) that enumerate_dict_in[of a' "actions q"] obtain j where
      "actions_idxs q a' = Some j" "j < length (actions q)" by (auto simp: table_inv_def)
    with ws show ?thesis by (auto simp: get_qvalue_row)
  qed
  have upper: "\<forall>a' \<in> set (actions q). \<exists>v. get_qvalue q new_state a' = Inr (Cell v) \<and> v \<le> ws ! m"
    using row m(2) by fastforce
  have "actions_idxs q (actions q ! m) = Some m"
    using assms(1,2) m(1) ws(2) by (simp add: table_inv_def enumerate_dict_distinct)
  then have "get_qvalue q new_state (actions q ! m) = Inr (Cell (ws ! m))"
    using ws m(1) by (simp add: get_qvalue_row)
  then have attained: "\<exists>a' \<in> set (actions q). get_qvalue q new_state a' = Inr (Cell (ws ! m))"
    using m(1) ws(2) by (intro bexI[of _ "actions q ! m"]) simp_all
  have inv': "table_inv ?q'"
    using table_inv_process_step[OF assms(1), of state action new_state reward] ps by simp
  have dom': "in_domain ?q' state" using assms(3) by (simp add: in_domain_def)
  from get_state_values_in_domain[OF inv' dom'] obtain vs' p0' where
    vs': "get_state_values ?q' state = Inr (Axis (map Cell vs'), p0')" by auto
  have p0': "p0' = p0" using get_state_values_table_indep[OF vs(1) vs'] .
  from get_state_values_path[OF vs(1)] have "nd_get p0 (table q) = Some (Axis (map Cell vs))"
    by simp
  then have "nd_get (p0 @ [k]) (table q) \<noteq> None"
    using k(2) vs(2) by (simp add: nd_get_append)
  then have "nd_get (p0 @ [k]) (table ?q') = Some (Cell ?new)"
    by (simp add: nd_get_nd_set_same)
  moreover from get_state_values_path[OF vs'] p0'
  have "nd_get p0 (table ?q') = Some (Axis (map Cell vs'))" by simp
  ultimately have "k < length vs' \<and> vs' ! k = ?new"
    by (auto simp: nd_get_append split: if_splits)
  then have new: "get_qvalue ?q' state action = Inr (Cell ?new)"
    using vs' k(1) by (simp add: get_qvalue_def)
  show ?thesis
    using old upper attained ps new
    by (intro exI[of _ "vs ! k"] exI[of _ "ws ! m"] exI[of _ ?q']) simp
qed

theorem process_step_bellman_witness:
  "table_inv example_table \<and> distinct (actions example_table) \<and>
   in_domain example_table [0] \<and> 0 \<in> set (actions example_table) \<and>
   in_domain example_table [1] \<and>
   fst (process_step example_table [0] 0 [1] 1) = Inr () \<and>
   get_qvalue (snd (process_step example_table [0] 0 [1] 1)) [0] 0 = Inr (Cell (5 / 2))"
proof -
  have h1: "table_inv example_table"
    by (simp add: example_table_def table_inv_def init_def)
  have h2: "distinct (actions example_table)"
    by (simp add: example_table_def init_def)
  have h3: "in_domain example_table [0]"
    by (simp add: example_table_def in_domain_def init_def)
  have h4: "0 \<in> set (actions example_table)"
    by (simp add: example_table_def init_def)
  have h5: "in_domain example_table [1]"
    by (simp add: example_table_def in_domain_def init_def)
  from process_step_bellman[OF h1 h2 h3 h4 h5, of 1] obtain old best q' where
    r: "get_qvalue example_table [0] 0 = Inr (Cell old)"
      "\<forall>a' \<in> set (actions example_table).
          \<exists>v. get_qvalue example_table [1] a' = Inr (Cell v) \<and> v \<le> best"
      "\<exists>a' \<in> set (actions example_table). get_qvalue example_table [1] a' = Inr (Cell best)"
      "process_step example_table [0] 0 [1] 1 = (Inr (), q')"
      "get_qvalue q' [0] 0 =
        Inr (Cell ((1 - learning_rate example_table) * old +
                   learning_rate example_table * (1 + discount_rate example_table * best)))"
    by blast
  have acts: "actions example_table = [0, 1]"
    and rates: "learning_rate example_table = 1 / 2" "discount_rate example_table = 1"
    by (simp_all add: example_table_def init_def)
  have row: "get_qvalue example_table [1] 0 = Inr (Cell 2)"
    "get_qvalue example_table [1] 1 = Inr (Cell 4)"
    by (simp_all add: example_table_def init_def get_qvalue_def get_state_values_def
        enumerate_dict_def enumerate_eq_zip upt_rec)
  from r(1) have old: "old = 0" by (simp add: process_step_example(1))
  from r(2) acts row have "4 \<le> best" by simp
  moreover from r(3) acts row have "best = 2 \<or> best = 4" by auto
  ultimately have best: "best = 4" by linarith
  from r(4,5) old best rates
  have "fst (process_step example_table [0] 0 [1] 1) = Inr ()"
    "get_qvalue (snd (process_step example_table [0] 0 [1] 1)) [0] 0 = Inr (Cell (5 / 2))"
    by simp_all
  with h1 h2 h3 h4 h5 show ?thesis by blast
qed

text \<open>
  \<^bold>\<open>C2\<close> (nearest value). On a non-empty strictly increasing domain \<open>find_nearest\<close>
  returns a value \<open>v\<close> of the domain; \<open>v\<close> is the first element when the target is at or
  below it, the last element when the target is at or above it, and in every case no
  element of the domain is closer to the target than \<open>v\<close>.
\<close>

theorem find_nearest_correct:
  assumes "ls \<noteq> []" "sorted_wrt (<) ls"
  shows "\<exists>v. find_nearest ls target = Some (Inr (Some v)) \<and> v \<in> set ls \<and>
             (target \<le> ls ! 0 \<longrightarrow> v = ls ! 0) \<and>
             (last ls \<le> target \<longrightarrow> v = last ls) \<and>
             (\<forall>x \<in> set ls. \<bar>target - v\<bar> \<le> \<bar>target - x\<bar>)"
proof -
  have first_in: "ls ! 0 \<in> set ls" and last_in: "last ls \<in> set ls"
    using assms(1) by simp_all
  have fl: "ls ! 0 \<le> last ls" using sorted_first_last[OF assms(2) last_in] by simp
  consider (hi) "last ls \<le> target" | (lo) "target < last ls" "target \<le> ls ! 0"
    | (mid) "ls ! 0 < target" "target < last ls" by linarith
  then show ?thesis
  proof cases
    case hi
    have "\<forall>x \<in> set ls. \<bar>target - last ls\<bar> \<le> \<bar>target - x\<bar>"
      using sorted_first_last[OF assms(2)] hi by fastforce
    moreover have "target \<le> ls ! 0 \<longrightarrow> last ls = ls ! 0" using hi fl by simp
    ultimately show ?thesis using hi assms(1) last_in by (simp add: find_nearest_def)
  next
    case lo
    have "\<forall>x \<in> set ls. \<bar>target - ls ! 0\<bar> \<le> \<bar>target - x\<bar>"
      using sorted_first_last[OF assms(2)] lo by fastforce
    then show ?thesis using lo assms(1) first_in by (simp add: find_nearest_def)
  next
    case mid
    from find_nearest_bracketed[OF assms(1) mid] obtain v where
      v: "find_nearest ls target = Some (Inr (Some v))" "bracketed ls target v" by blast
    from bracketed_nearest[OF assms(2) v(2)] v(1) mid show ?thesis by simp
  qed
qed

theorem find_nearest_correct_witness:
  "[0, 1, 2, 3, 4 :: real] \<noteq> [] \<and> sorted_wrt (<) [0, 1, 2, 3, 4 :: real] \<and>
   find_nearest [0, 1, 2, 3, 4] (24 / 10) = Some (Inr (Some 2)) \<and>
   find_nearest [0, 1, 2, 3, 4] (- 1) = Some (Inr (Some 0)) \<and>
   find_nearest [0, 1, 2, 3, 4] 7 = Some (Inr (Some 4))"
proof -
  have h1: "[0, 1, 2, 3, 4 :: real] \<noteq> []" by simp
  have h2: "sorted_wrt (<) [0, 1, 2, 3, 4 :: real]" by simp
  from find_nearest_correct[OF h1 h2, of "24 / 10"] obtain v where
    v: "find_nearest [0, 1, 2, 3, 4] (24 / 10) = Some (Inr (Some v))" "v \<in> set [0, 1, 2, 3, 4]"
      "\<forall>x \<in> set [0, 1, 2, 3, 4 :: real]. \<bar>24 / 10 - v\<bar> \<le> \<bar>24 / 10 - x\<bar>"
    by blast
  from v(3) have "\<bar>24 / 10 - v\<bar> \<le> \<bar>24 / 10 - 2\<bar>" by simp
  with v(2) have "v = 2" by auto
  with v(1) have mid: "find_nearest [0, 1, 2, 3, 4] (24 / 10) = Some (Inr (Some 2))" by simp
  from find_nearest_correct[OF h1 h2, of "- 1"]
  have lo: "find_nearest [0, 1, 2, 3, 4] (- 1) = Some (Inr (Some 0))" by auto
  from find_nearest_correct[OF h1 h2, of 7]
  have hi: "find_nearest [0, 1, 2, 3, 4] 7 = Some (Inr (Some 4))" by auto
  from h1 h2 mid lo hi show ?thesis by blast
qed

text \<open>
  \<^bold>\<open>C3\<close> (ties). The claim that a target exactly between two adjacent elements is
  always mapped to the smaller one fails: in \<open>[0, 1, 2, 3]\<close> the target \<open>1/2\<close> is
  equidistant from \<open>0\<close> and \<open>1\<close>, the search probes index \<open>1\<close> from above, and
  \<open>get_closer\<close> prefers the probed element, so the larger value \<open>1\<close> is returned.
\<close>

theorem find_nearest_tie_counterexample:
  "sorted_wrt (<) [0, 1, 2, 3 :: real] \<and>
   1 / 2 - [0, 1, 2, 3 :: real] ! 0 = [0, 1, 2, 3] ! 1 - 1 / 2 \<and>
   find_nearest [0, 1, 2, 3] (1 / 2) = Some (Inr (Some 1)) \<and>
   find_nearest [0, 1, 2, 3] (1 / 2) \<noteq> Some (Inr (Some ([0, 1, 2, 3] ! 0)))"
  by (simp add: find_nearest_def search_loop.simps get_closer_def)

text \<open>
  \<^bold>\<open>C3\<close>, as amended: for a strictly increasing domain and a target exactly equidistant
  from the adjacent elements \<open>ls ! i\<close> and \<open>ls ! (i + 1)\<close>, \<open>find_nearest\<close> returns the tied
  element that the binary search probes first: the element at the first midpoint of the
  bisection of \<open>[0, length ls)\<close> that is \<open>i\<close> or \<open>i + 1\<close>. That is the smaller element when the
  search arrives at the pair from below and the larger one when it arrives from above.
\<close>

theorem find_nearest_tie:
  assumes "sorted_wrt (<) ls" "i + 1 < length ls"
    and "target - ls ! i = ls ! (i + 1) - target"
  shows "find_nearest ls target = Some (Inr (Some (ls ! first_probe i 0 (length ls)))) \<and>
         (first_probe i 0 (length ls) = i \<or> first_probe i 0 (length ls) = i + 1)"
proof -
  have ne: "ls \<noteq> []" using assms(2) by auto
  have lt: "ls ! i < ls ! (i + 1)"
    using sorted_wrt_nth_less[OF assms(1), of i "i + 1"] assms(2) by simp
  with assms(3) have between: "ls ! i < target" "target < ls ! (i + 1)" by linarith+
  have "ls ! 0 \<le> ls ! i" "ls ! (i + 1) \<le> last ls"
    using sorted_first_last[OF assms(1), of "ls ! i"]
      sorted_first_last[OF assms(1), of "ls ! (i + 1)"] assms(2) by simp_all
  with between have mid: "ls ! 0 < target" "target < last ls" by linarith+
  have "search_loop ls target 0 (length ls) = Some (Inr (Some (ls ! first_probe i 0 (length ls))))"
    using assms by (intro search_loop_tie) simp_all
  then have "find_nearest ls target = Some (Inr (Some (ls ! first_probe i 0 (length ls))))"
    using ne mid by (simp add: find_nearest_def)
  moreover have "first_probe i 0 (length ls) = i \<or> first_probe i 0 (length ls) = i + 1"
    using assms(2) by (intro first_probe_range) simp_all
  ultimately show ?thesis by simp
qed

theorem find_nearest_tie_witness:
  "sorted_wrt (<) [0, 1, 2, 3 :: real] \<and>
   0 + 1 < length [0, 1, 2, 3 :: real] \<and> 2 + 1 < length [0, 1, 2, 3 :: real] \<and>
   1 / 2 - [0, 1, 2, 3 :: real] ! 0 = [0, 1, 2, 3] ! (0 + 1) - 1 / 2 \<and>
   5 / 2 - [0, 1, 2, 3 :: real] ! 2 = [0, 1, 2, 3] ! (2 + 1) - 5 / 2 \<and>
   first_probe 0 0 (length [0, 1, 2, 3 :: real]) = 1 \<and>
   find_nearest [0, 1, 2, 3] (1 / 2) = Some (Inr (Some 1)) \<and>
   first_probe 2 0 (length [0, 1, 2, 3 :: real]) = 2 \<and>
   find_nearest [0, 1, 2, 3] (5 / 2) = Some (Inr (Some 2))"
proof -
  have h1: "sorted_wrt (<) [0, 1, 2, 3 :: real]" by simp
  have h2: "0 + 1 < length [0, 1, 2, 3 :: real]" "2 + 1 < length [0, 1, 2, 3 :: real]"
    by simp_all
  have h3: "1 / 2 - [0, 1, 2, 3 :: real] ! 0 = [0, 1, 2, 3] ! (0 + 1) - 1 / 2"
    "5 / 2 - [0, 1, 2, 3 :: real] ! 2 = [0, 1, 2, 3] ! (2 + 1) - 5 / 2"
    by simp_all
  have p: "first_probe 0 0 (length [0, 1, 2, 3 :: real]) = 1"
    "first_probe 2 0 (length [0, 1, 2, 3 :: real]) = 2"
    by (simp_all add: first_probe.simps)
  from find_nearest_tie[OF h1 h2(1) h3(1)] p(1)
  have a: "find_nearest [0, 1, 2, 3] (1 / 2) = Some (Inr (Some 1))" by simp
  from find_nearest_tie[OF h1 h2(2) h3(2)] p(2)
  have b: "find_nearest [0, 1, 2, 3] (5 / 2) = Some (Inr (Some 2))" by simp
  from h1 h2 h3 p a b show ?thesis by blast
qed

text \<open>
  \<^bold>\<open>C4\<close> (termination). On every non-empty list and every target \<open>find_nearest\<close>
  terminates and returns a value: it neither runs forever (the result is not \<open>None\<close>) nor
  leaves the loop without returning (the result is not \<open>Some (Inr None)\<close>). Strict
  monotonicity of the list is not needed for this.
\<close>

theorem find_nearest_returns:
  assumes "ls \<noteq> []"
  shows "\<exists>v. find_nearest ls target = Some (Inr (Some v))"
proof -
  consider (hi) "last ls \<le> target" | (lo) "target < last ls" "target \<le> ls ! 0"
    | (mid) "ls ! 0 < target" "target < last ls" by linarith
  then show ?thesis
  proof cases
    case hi
    then show ?thesis using assms by (simp add: find_nearest_def)
  next
    case lo
    then show ?thesis using assms by (simp add: find_nearest_def)
  next
    case mid
    from find_nearest_bracketed[OF assms mid] show ?thesis by blast
  qed
qed

theorem find_nearest_returns_witness:
  "[0, 1, 2, 3 :: real] \<noteq> [] \<and> (\<exists>v. find_nearest [0, 1, 2, 3] (1 / 2) = Some (Inr (Some v)))"
proof -
  have h: "[0, 1, 2, 3 :: real] \<noteq> []" by simp
  from find_nearest_returns[OF h, of "1 / 2"] h show ?thesis by blast
qed

text \<open>
  \<^bold>\<open>C5\<close> (update locality). For in-domain arguments \<open>process_step\<close> succeeds and writes
  the one cell addressed by the index path of \<open>(state, action)\<close>: that path holds a scalar
  before and after, every other index path of the same length reads the same before and
  after, and no other field of the table object changes.
\<close>

theorem process_step_frame:
  assumes "table_inv q" "in_domain q state" "action \<in> set (actions q)" "in_domain q new_state"
  shows "\<exists>d p0 k old new q'.
           get_state_values q state = Inr (d, p0) \<and> actions_idxs q action = Some k \<and>
           process_step q state action new_state reward = (Inr (), q') \<and>
           nd_get (p0 @ [k]) (table q) = Some (Cell old) \<and>
           nd_get (p0 @ [k]) (table q') = Some (Cell new) \<and>
           (\<forall>p. length p = length (p0 @ [k]) \<and> p \<noteq> p0 @ [k] \<longrightarrow>
                nd_get p (table q') = nd_get p (table q)) \<and>
           q' = q\<lparr>table := table q'\<rparr>"
proof -
  from assms obtain vs p0 k ws p1 m where
    vs: "get_state_values q state = Inr (Axis (map Cell vs), p0)" "length vs = length (actions q)"
    and k: "actions_idxs q action = Some k" "k < length (actions q)"
    and ps: "process_step q state action new_state reward =
        (Inr (), q\<lparr>table := nd_set (p0 @ [k])
           (Cell ((1 - learning_rate q) * vs ! k + learning_rate q * (reward + discount_rate q * ws ! m)))
           (table q)\<rparr>)"
    by (rule process_step_in_domain[where reward = reward])
  let ?new = "(1 - learning_rate q) * vs ! k + learning_rate q * (reward + discount_rate q * ws ! m)"
  let ?q' = "q\<lparr>table := nd_set (p0 @ [k]) (Cell ?new) (table q)\<rparr>"
  from get_state_values_path[OF vs(1)] have "nd_get p0 (table q) = Some (Axis (map Cell vs))"
    by simp
  then have old: "nd_get (p0 @ [k]) (table q) = Some (Cell (vs ! k))"
    using k(2) vs(2) by (simp add: nd_get_append)
  then have new: "nd_get (p0 @ [k]) (table ?q') = Some (Cell ?new)"
    by (simp add: nd_get_nd_set_same)
  have frame: "\<forall>p. length p = length (p0 @ [k]) \<and> p \<noteq> p0 @ [k] \<longrightarrow>
                nd_get p (table ?q') = nd_get p (table q)"
    using nd_get_nd_set_other[of _ "p0 @ [k]" "Cell ?new" "table q"] by simp
  show ?thesis
    using vs(1) k(1) ps old new frame
    by (intro exI[of _ "Axis (map Cell vs)"] exI[of _ p0] exI[of _ k] exI[of _ "vs ! k"]
        exI[of _ ?new] exI[of _ ?q']) simp
qed

theorem process_step_frame_witness:
  "table_inv example_table \<and> in_domain example_table [0] \<and>
   0 \<in> set (actions example_table) \<and> in_domain example_table [1] \<and>
   (\<exists>d p0 k old new q'.
      get_state_values example_table [0] = Inr (d, p0) \<and>
      actions_idxs example_table 0 = Some k \<and>
      process_step example_table [0] 0 [1] 1 = (Inr (), q') \<and>
      nd_get (p0 @ [k]) (table example_table) = Some (Cell old) \<and>
      nd_get (p0 @ [k]) (table q') = Some (Cell new) \<and>
      (\<forall>p. length p = length (p0 @ [k]) \<and> p \<noteq> p0 @ [k] \<longrightarrow>
           nd_get p (table q') = nd_get p (table example_table)) \<and>
      q' = example_table\<lparr>table := table q'\<rparr>)"
proof -
  have h1: "table_inv example_table"
    by (simp add: example_table_def table_inv_def init_def)
  have h2: "in_domain example_table [0]"
    by (simp add: example_table_def in_domain_def init_def)
  have h3: "0 \<in> set (actions example_table)"
    by (simp add: example_table_def init_def)
  have h4: "in_domain example_table [1]"
    by (simp add: example_table_def in_domain_def init_def)
  from process_step_frame[OF h1 h2 h3 h4, of 1] h1 h2 h3 h4 show ?thesis by blast
qed

text \<open>
  \<^bold>\<open>C6\<close> (greedy action). For an in-domain state of a table with a non-empty list of
  pairwise distinct actions, \<open>get_max_action\<close> returns the pair of the action at some index
  \<open>i\<close> and a value \<open>v\<close> such that \<open>v\<close> is the value stored for that action, the value of
  every action is at most \<open>v\<close>, and the value of every action with a smaller index is
  strictly below \<open>v\<close>: the first action that attains the maximum is chosen. The result is a
  function of the table and the state, and the table is not changed.
\<close>

theorem get_max_action_greedy:
  assumes "table_inv q" "distinct (actions q)" "in_domain q state" "actions q \<noteq> []"
  shows "\<exists>i v. get_max_action q state = Inr (actions q ! i, v) \<and> i < length (actions q) \<and>
           get_qvalue q state (actions q ! i) = Inr (Cell v) \<and>
           (\<forall>j < length (actions q). \<exists>w. get_qvalue q state (actions q ! j) = Inr (Cell w) \<and>
                w \<le> v \<and> (j < i \<longrightarrow> w < v))"
proof -
  from get_state_values_in_domain[OF assms(1,3)] obtain vs p0 where
    vs: "get_state_values q state = Inr (Axis (map Cell vs), p0)" "length vs = length (actions q)"
    by blast
  from get_max_action_in_domain[OF assms(1) vs assms(4)] obtain m where
    m: "get_max_action q state = Inr (actions q ! m, vs ! m)" "m < length vs"
      "\<forall>j < length vs. vs ! j \<le> vs ! m" "\<forall>j < m. vs ! j < vs ! m" by blast
  have row: "get_qvalue q state (actions q ! j) = Inr (Cell (vs ! j))" if "j < length (actions q)" for j
  proof -
    from assms(1,2) that have "actions_idxs q (actions q ! j) = Some j"
      by (simp add: table_inv_def enumerate_dict_distinct)
    with vs that show ?thesis by (simp add: get_qvalue_row)
  qed
  show ?thesis
  proof (intro exI conjI allI impI)
    show "get_max_action q state = Inr (actions q ! m, vs ! m)" by (rule m(1))
    show "m < length (actions q)" using m(2) vs(2) by simp
    then show "get_qvalue q state (actions q ! m) = Inr (Cell (vs ! m))" by (rule row)
  next
    fix j assume "j < length (actions q)"
    then show "get_qvalue q state (actions q ! j) = Inr (Cell (vs ! j))" by (rule row)
  next
    fix j assume "j < length (actions q)"
    then show "vs ! j \<le> vs ! m" using m(3) vs(2) by simp
  next
    fix j assume "j < length (actions q)" "j < m"
    then show "vs ! j < vs ! m" using m(4) by simp
  qed
qed

theorem get_max_action_greedy_witness:
  "table_inv example_table \<and> distinct (actions example_table) \<and>
   in_domain example_table [1] \<and> actions example_table \<noteq> [] \<and>
   (\<exists>i v. get_max_action example_table [1] = Inr (actions example_table ! i, v) \<and>
      i < length (actions example_table) \<and>
      get_qvalue example_table [1] (actions example_table ! i) = Inr (Cell v) \<and>
      (\<forall>j < length (actions example_table).
          \<exists>w. get_qvalue example_table [1] (actions example_table ! j) = Inr (Cell w) \<and>
              w \<le> v \<and> (j < i \<longrightarrow> w < v)))"
proof -
  have h1: "table_inv example_table"
    by (simp add: example_table_def table_inv_def init_def)
  have h2: "distinct (actions example_table)"
    by (simp add: example_table_def init_def)
  have h3: "in_domain example_table [1]"
    by (simp add: example_table_def in_domain_def init_def)
  have h4: "actions example_table \<noteq> []"
    by (simp add: example_table_def init_def)
  from get_max_action_greedy[OF h1 h2 h3 h4] h1 h2 h3 h4 show ?thesis by blast
qed

text \<open>
  \<^bold>\<open>C7\<close> (exploration decay). The constructor sets the exploration rate to \<open>1\<close>; one call
  of \<open>update_exploration_rate\<close> replaces it by \<open>exploration_rate * (1 - exploration_decay)\<close>;
  and with a decay in \<open>(0, 1]\<close> the rate after any number \<open>n\<close> of calls on a fresh table is
  in \<open>[0, 1]\<close> and is not increased by the next call.
\<close>

theorem exploration_rate_decay:
  "exploration_rate (init obs acts lr dr decay) = 1 \<and>
   exploration_rate (update_exploration_rate q) =
     exploration_rate q * (1 - exploration_decay q) \<and>
   (0 < decay \<and> decay \<le> 1 \<longrightarrow>
      (\<forall>n. 0 \<le> exploration_rate ((update_exploration_rate ^^ n) (init obs acts lr dr decay)) \<and>
           exploration_rate ((update_exploration_rate ^^ n) (init obs acts lr dr decay)) \<le> 1 \<and>
           exploration_rate ((update_exploration_rate ^^ Suc n) (init obs acts lr dr decay))
             \<le> exploration_rate ((update_exploration_rate ^^ n) (init obs acts lr dr decay))))"
proof (intro conjI impI allI)
  show "exploration_rate (init obs acts lr dr decay) = 1" by (simp add: init_def)
  show "exploration_rate (update_exploration_rate q) =
     exploration_rate q * (1 - exploration_decay q)"
    by (simp add: update_exploration_rate_def)
next
  fix n assume d: "0 < decay \<and> decay \<le> 1"
  let ?q0 = "init obs acts lr dr decay :: 'a qtable"
  have rate: "exploration_rate ((update_exploration_rate ^^ k) ?q0) = (1 - decay) ^ k" for k
    using decay_iterate[of k ?q0] by (simp add: init_def)
  from d have b: "0 \<le> 1 - decay" "1 - decay \<le> 1" by simp_all
  show "0 \<le> exploration_rate ((update_exploration_rate ^^ n) ?q0)"
    using b by (simp only: rate zero_le_power)
  show "exploration_rate ((update_exploration_rate ^^ n) ?q0) \<le> 1"
    using b by (simp only: rate power_le_one)
  show "exploration_rate ((update_exploration_rate ^^ Suc n) ?q0)
          \<le> exploration_rate ((update_exploration_rate ^^ n) ?q0)"
    unfolding rate using b by (simp add: mult_left_le_one_le)
qed

theorem exploration_rate_decay_witness:
  "exploration_rate (init [ [0, 1, 2] ] [0, 1 :: nat] (1 / 2) 1 (1 / 100)) = 1 \<and>
   exploration_rate (update_exploration_rate example_table) =
     exploration_rate example_table * (1 - exploration_decay example_table) \<and>
   (0 < (1 / 100 :: real) \<and> (1 / 100 :: real) \<le> 1) \<and>
   exploration_rate ((update_exploration_rate ^^ Suc 2) (init [ [0, 1, 2] ] [0, 1 :: nat] (1 / 2) 1 (1 / 100)))
     \<le> exploration_rate ((update_exploration_rate ^^ 2) (init [ [0, 1, 2] ] [0, 1 :: nat] (1 / 2) 1 (1 / 100)))"
proof -
  have h: "0 < (1 / 100 :: real) \<and> (1 / 100 :: real) \<le> 1" by simp
  from exploration_rate_decay[of "[ [0, 1, 2] ]" "[0, 1 :: nat]" "1 / 2" 1 "1 / 100" example_table] h
  show ?thesis by blast
qed

text \<open>
  \<^bold>\<open>C8\<close> (empty factor). The claim that the construction raises an error for a factor
  with an empty sequence fails: for the bound \<open>(1, 0)\<close> and step \<open>1\<close> the function returns
  normally, with the empty list for that factor.
\<close>

theorem discretize_observation_space_counterexample:
  "discretize_observation_space [(1, 0)] [1] = Inr [ [] ]"
  by (simp add: discretize_observation_space_def arange_def)

text \<open>
  \<^bold>\<open>C8\<close>, as amended: with at least as many steps as bounds and no step equal to zero,
  \<open>discretize_observation_space\<close> raises nothing and returns one list per factor; the list
  of a factor is empty exactly when \<open>(max - min) / step \<le> 0\<close>, in particular when
  \<open>min \<ge> max\<close> and the step is positive.
\<close>

theorem discretize_observation_space_empty_factor:
  assumes "length bounds \<le> length steps" "\<forall>i < length bounds. steps ! i \<noteq> 0"
  shows "\<exists>ds. discretize_observation_space bounds steps = Inr ds \<and> length ds = length bounds \<and>
           (\<forall>i < length bounds.
              ds ! i = [] \<longleftrightarrow> (snd (bounds ! i) - fst (bounds ! i)) / steps ! i \<le> 0)"
proof -
  from discretize_loop_total[of 0 bounds steps "[]"] assms obtain ds where
    ds: "discretize_loop 0 bounds steps [] = Inr ds" "length ds = length bounds"
      "\<forall>i < length bounds. arange (fst (bounds ! i)) (snd (bounds ! i)) (steps ! i) = Inr (ds ! i)"
    by auto
  have "\<forall>i < length bounds.
              ds ! i = [] \<longleftrightarrow> (snd (bounds ! i) - fst (bounds ! i)) / steps ! i \<le> 0"
  proof (intro allI impI)
    fix i assume "i < length bounds"
    with ds(3) assms(2) have "steps ! i \<noteq> 0"
      "arange (fst (bounds ! i)) (snd (bounds ! i)) (steps ! i) = Inr (ds ! i)" by simp_all
    then show "ds ! i = [] \<longleftrightarrow> (snd (bounds ! i) - fst (bounds ! i)) / steps ! i \<le> 0"
      by (rule arange_empty_iff)
  qed
  with ds(1,2) show ?thesis unfolding discretize_observation_space_def by blast
qed

theorem discretize_observation_space_empty_factor_witness:
  "length [(1 :: real, 0 :: real)] \<le> length [1 :: real] \<and> [1 :: real] ! 0 \<noteq> 0 \<and>
   (\<exists>ds. discretize_observation_space [(1, 0)] [1] = Inr ds \<and> length ds = 1 \<and> ds ! 0 = [])"
proof -
  have h1: "length [(1 :: real, 0 :: real)] \<le> length [1 :: real]" by simp
  have h2: "\<forall>i < length [(1 :: real, 0 :: real)]. [1 :: real] ! i \<noteq> 0" by simp
  from discretize_observation_space_empty_factor[OF h1 h2] obtain ds where
    ds: "discretize_observation_space [(1, 0)] [1] = Inr ds" "length ds = length [(1 :: real, 0 :: real)]"
      "\<forall>i < length [(1 :: real, 0 :: real)].
          ds ! i = [] \<longleftrightarrow> (snd ([(1 :: real, 0 :: real)] ! i) - fst ([(1 :: real, 0 :: real)] ! i)) / [1 :: real] ! i \<le> 0"
    by blast
  from ds(3) have "ds ! 0 = []" by simp
  with ds(1,2) show ?thesis by simp
qed

text \<open>
  \<^bold>\<open>C9\<close> (out-of-domain arguments). If the state has a component that is absent from
  the domain of its factor, or the action is not in the action set, then \<open>get_qvalue\<close>
  raises; and \<open>process_step\<close> raises when this holds of its state or action, or when its
  new state has such a component.
\<close>

theorem out_of_domain_signals_error:
  assumes "table_inv q"
  shows "(out_of_domain q state \<or> action \<notin> set (actions q) \<longrightarrow>
            (\<exists>e. get_qvalue q state action = Inl e)) \<and>
         (out_of_domain q state \<or> action \<notin> set (actions q) \<or> out_of_domain q new_state \<longrightarrow>
            (\<exists>e. fst (process_step q state action new_state reward) = Inl e))"
proof (intro conjI impI)
  assume bad: "out_of_domain q state \<or> action \<notin> set (actions q)"
  then show "\<exists>e. get_qvalue q state action = Inl e"
  proof
    assume "out_of_domain q state"
    from get_state_values_out_of_domain[OF assms this] show ?thesis
      by (auto simp: get_qvalue_def)
  next
    assume "action \<notin> set (actions q)"
    then have "actions_idxs q action = None"
      using assms by (simp add: table_inv_def enumerate_dict_notin)
    then show ?thesis
      by (auto simp: get_qvalue_def split: sum.splits)
  qed
next
  assume bad: "out_of_domain q state \<or> action \<notin> set (actions q) \<or> out_of_domain q new_state"
  from process_step_cases[of q state action new_state reward]
  show "\<exists>e. fst (process_step q state action new_state reward) = Inl e"
  proof (elim disjE exE conjE)
    fix e assume "process_step q state action new_state reward = (Inl e, q)"
    then show ?thesis by simp
  next
    fix d p0 k old best bv
    assume ok: "get_state_values q state = Inr (d, p0)" "actions_idxs q action = Some k"
      "get_max_action q new_state = Inr (best, bv)"
    from process_step_proceeds[OF assms ok] bad show ?thesis by blast
  qed
qed

theorem out_of_domain_signals_error_witness:
  "table_inv example_table \<and> out_of_domain example_table [7] \<and>
   (\<exists>e. get_qvalue example_table [7] 0 = Inl e) \<and>
   (\<exists>e. fst (process_step example_table [7] 0 [1] 1) = Inl e)"
proof -
  have h1: "table_inv example_table"
    by (simp add: example_table_def table_inv_def init_def)
  have h2: "out_of_domain example_table [7]"
    by (simp add: example_table_def out_of_domain_def init_def)
  from out_of_domain_signals_error[OF h1, of "[7]" 0 "[1]" 1] h1 h2 show ?thesis by blast
qed

text \<open>
  \<^bold>\<open>C10\<close> (error atomicity). If an argument of \<open>process_step\<close> is out of domain, the
  call raises and the table object it leaves behind is the one it was given.
\<close>

theorem process_step_error_atomic:
  assumes "table_inv q"
    and "out_of_domain q state \<or> action \<notin> set (actions q) \<or> out_of_domain q new_state"
  shows "\<exists>e. process_step q state action new_state reward = (Inl e, q)"
proof -
  from process_step_cases[of q state action new_state reward]
  show ?thesis
  proof (elim disjE exE conjE)
    fix e assume "process_step q state action new_state reward = (Inl e, q)"
    then show ?thesis by simp
  next
    fix d p0 k old best bv
    assume ok: "get_state_values q state = Inr (d, p0)" "actions_idxs q action = Some k"
      "get_max_action q new_state = Inr (best, bv)"
    from process_step_proceeds[OF assms(1) ok] assms(2) show ?thesis by blast
  qed
qed

theorem process_step_error_atomic_witness:
  "table_inv example_table \<and> 5 \<notin> set (actions example_table) \<and>
   (\<exists>e. process_step example_table [0] 5 [1] 1 = (Inl e, example_table))"
proof -
  have h1: "table_inv example_table"
    by (simp add: example_table_def table_inv_def init_def)
  have h2: "5 \<notin> set (actions example_table)"
    by (simp add: example_table_def init_def)
  then have h3: "out_of_domain example_table [0] \<or> 5 \<notin> set (actions example_table) \<or>
    out_of_domain example_table [1]" by simp
  from process_step_error_atomic[OF h1 h3, of 1] h1 h2 show ?thesis by blast
qed

end
